theory Spec2Isabelle
  imports Complex_Main "HOL-Library.Sublist"
begin

section \<open>Python strings\<close>

text \<open>
  A Python \<^verbatim>\<open>str\<close> is a sequence of Unicode code points. The marker table of
  \<^verbatim>\<open>ThinkingTokenProcessor\<close> holds code points beyond one byte (U+2014, U+2013), so a
  character is a natural number and a string is a list of them.
\<close>

type_synonym uchar = nat
type_synonym ustr = "uchar list"

definition ascii :: "string \<Rightarrow> ustr" where
  "ascii s = map of_char s"

abbreviation (input) NL :: uchar where "NL \<equiv> 10"

text \<open>
  \<^verbatim>\<open>str.isspace\<close>, which is also the class \<^verbatim>\<open>\s\<close> of a \<^verbatim>\<open>str\<close> pattern and the
  set that \<^verbatim>\<open>str.strip()\<close> removes.
\<close>

definition isspace :: "uchar \<Rightarrow> bool" where
  "isspace c \<longleftrightarrow>
     (9 \<le> c \<and> c \<le> 13) \<or> (28 \<le> c \<and> c \<le> 32) \<or> c = 133 \<or> c = 160 \<or> c = 5760 \<or>
     (8192 \<le> c \<and> c \<le> 8202) \<or> c = 8232 \<or> c = 8233 \<or> c = 8239 \<or> c = 8287 \<or> c = 12288"

text \<open>\<^verbatim>\<open>s.strip()\<close>\<close>

definition strip :: "ustr \<Rightarrow> ustr" where
  "strip s = rev (dropWhile isspace (rev (dropWhile isspace s)))"

text \<open>\<^verbatim>\<open>s[i:j]\<close> for \<open>0 \<le> i\<close>, \<open>0 \<le> j\<close>\<close>

definition slice :: "ustr \<Rightarrow> nat \<Rightarrow> nat \<Rightarrow> ustr" where
  "slice s i j = take (j - i) (drop i s)"

text \<open>\<^verbatim>\<open>sep.join(parts)\<close>\<close>

fun join :: "ustr \<Rightarrow> ustr list \<Rightarrow> ustr" where
  "join sep [] = []"
| "join sep [p] = p"
| "join sep (p # q # ps) = p @ sep @ join sep (q # ps)"

text \<open>
  \<^verbatim>\<open>s.replace(old, "")\<close>: the occurrences of \<open>old\<close> are found from the left, each
  search starting behind the previous occurrence. For an empty \<open>old\<close> the empty
  replacement is inserted between the characters, which changes nothing.
\<close>

function replace_del :: "ustr \<Rightarrow> ustr \<Rightarrow> ustr" where
  "replace_del old [] = []"
| "replace_del old (c # cs) =
     (if old \<noteq> [] \<and> prefix old (c # cs)
      then replace_del old (drop (length old) (c # cs))
      else c # replace_del old cs)"
  by pat_completeness auto
termination
  by (relation "measure (\<lambda>(old, s). length s)") (auto simp: neq_Nil_conv)

text \<open>
  \<^verbatim>\<open>s.splitlines()\<close>: the line boundaries of a \<^verbatim>\<open>str\<close> are LF, VT, FF, CR, CR LF
  (one boundary), FS, GS, RS, NEL, LS and PS; a final boundary opens no further line.
\<close>

definition is_linebreak :: "uchar \<Rightarrow> bool" where
  "is_linebreak c \<longleftrightarrow> (10 \<le> c \<and> c \<le> 13) \<or> (28 \<le> c \<and> c \<le> 30) \<or> c = 133 \<or> c = 8232 \<or> c = 8233"

fun splitlines_from :: "ustr \<Rightarrow> ustr \<Rightarrow> ustr list" where
  "splitlines_from cur [] = (if cur = [] then [] else [cur])"
| "splitlines_from cur [c] = (if is_linebreak c then [cur] else [cur @ [c]])"
| "splitlines_from cur (c # d # cs) =
     (if c = 13 \<and> d = 10 then cur # splitlines_from [] cs
      else if is_linebreak c then cur # splitlines_from [] (d # cs)
      else splitlines_from (cur @ [c]) (d # cs))"

definition splitlines :: "ustr \<Rightarrow> ustr list" where
  "splitlines s = splitlines_from [] s"

text \<open>\<^verbatim>\<open>str(n)\<close> for an \<^verbatim>\<open>int\<close>, as an f-string field \<^verbatim>\<open>{n}\<close> formats it.\<close>

fun str_nat :: "nat \<Rightarrow> ustr" where
  "str_nat n = (if n < 10 then [48 + n] else str_nat (n div 10) @ [48 + n mod 10])"

declare str_nat.simps [simp del]

definition str_int :: "int \<Rightarrow> ustr" where
  "str_int i = (if i < 0 then 45 # str_nat (nat (- i)) else str_nat (nat i))"

section \<open>The regular expression engine, as far as the patterns use it\<close>

text \<open>
  Under \<^verbatim>\<open>re.IGNORECASE\<close> a literal character \<open>p\<close> of a \<^verbatim>\<open>str\<close> pattern matches a
  character \<open>c\<close> of the text when the simple lower-case mapping of \<open>c\<close> is that of
  \<open>p\<close>, or one of the engine's case equivalents of it (dotless i for i, long s for s).
  The Unicode case table is the interpreter's, not this repository's: \<open>unicode_tolower\<close>
  gives it on the code points that lower-case to a character of the patterns below
  (A-Z, the upper-case letters of Latin-1, U+0130 and the Kelvin sign U+212A) and is the
  identity elsewhere, which decides every comparison with a pattern character exactly.
\<close>

definition unicode_tolower :: "uchar \<Rightarrow> uchar" where
  "unicode_tolower c =
     (if 65 \<le> c \<and> c \<le> 90 then c + 32
      else if 192 \<le> c \<and> c \<le> 222 \<and> c \<noteq> 215 then c + 32
      else if c = 304 then 105
      else if c = 8490 then 107
      else c)"

definition ignorecase_eq :: "uchar \<Rightarrow> uchar \<Rightarrow> bool" where
  "ignorecase_eq p c \<longleftrightarrow>
     (let lo = unicode_tolower p
      in unicode_tolower c = lo \<or> (lo = 105 \<and> c = 305) \<or> (lo = 115 \<and> c = 383))"

text \<open>The escaped literal \<open>lit\<close> matches at the head of \<open>s\<close>.\<close>

fun lit_match :: "ustr \<Rightarrow> ustr \<Rightarrow> bool" where
  "lit_match [] s = True"
| "lit_match (p # ps) [] = False"
| "lit_match (p # ps) (c # cs) = (ignorecase_eq p c \<and> lit_match ps cs)"

text \<open>
  The lazy \<^verbatim>\<open>(.*?)\<close> under \<^verbatim>\<open>re.DOTALL\<close> followed by a literal: the number of
  characters the group takes is the least one after which the literal matches.
\<close>

fun lazy_until :: "ustr \<Rightarrow> ustr \<Rightarrow> nat option" where
  "lazy_until lit [] = (if lit_match lit [] then Some 0 else None)"
| "lazy_until lit (c # cs) =
     (if lit_match lit (c # cs) then Some 0 else map_option Suc (lazy_until lit cs))"

text \<open>
  A match object of the pattern \<^verbatim>\<open>start(.*?)end\<close>: \<^verbatim>\<open>match.span(0)\<close> is
  \<open>(m_start, m_end)\<close> and \<^verbatim>\<open>match.span(1)\<close> is \<open>(g_start, g_end)\<close>.
\<close>

record rmatch =
  m_start :: nat
  g_start :: nat
  g_end :: nat
  m_end :: nat

definition group0 :: "ustr \<Rightarrow> rmatch \<Rightarrow> ustr" where
  "group0 s m = slice s (m_start m) (m_end m)"

definition group1 :: "ustr \<Rightarrow> rmatch \<Rightarrow> ustr" where
  "group1 s m = slice s (g_start m) (g_end m)"

text \<open>
  \<^verbatim>\<open>re.finditer(rf"{re.escape(st)}(.*?){re.escape(en)}", s, re.DOTALL | re.IGNORECASE)\<close>
  with the scan at position \<open>pos\<close> and \<open>s\<close> the text from there on: the engine tries each
  start position in turn; where the start literal matches it looks for the nearest end
  literal, and when there is none it goes on with the next start position. The search
  resumes behind a match, or one character further when the match is empty (which takes
  both literals empty; no pattern of the table is).
\<close>

function finditer_from :: "ustr \<Rightarrow> ustr \<Rightarrow> nat \<Rightarrow> ustr \<Rightarrow> rmatch list" where
  "finditer_from st en pos [] =
     (if st = [] \<and> en = []
      then [\<lparr>m_start = pos, g_start = pos, g_end = pos, m_end = pos\<rparr>] else [])"
| "finditer_from st en pos (c # cs) =
     (if lit_match st (c # cs) then
        (case lazy_until en (drop (length st) (c # cs)) of
           Some k \<Rightarrow>
             \<lparr>m_start = pos, g_start = pos + length st, g_end = pos + length st + k,
               m_end = pos + length st + k + length en\<rparr>
             # finditer_from st en (pos + max 1 (length st + k + length en))
                 (drop (max 1 (length st + k + length en)) (c # cs))
         | None \<Rightarrow> finditer_from st en (Suc pos) cs)
      else finditer_from st en (Suc pos) cs)"
  by pat_completeness auto
termination
  by (relation "measure (\<lambda>(st, en, pos, s). length s)") auto

declare finditer_from.simps(2) [simp del]

definition finditer :: "ustr \<Rightarrow> ustr \<Rightarrow> ustr \<Rightarrow> rmatch list" where
  "finditer st en s = finditer_from st en 0 s"

text \<open>
  \<^verbatim>\<open>re.sub(r'\n\s*\n', '\n\n', s)\<close>. Behind a line feed the greedy \<^verbatim>\<open>\s*\<close> takes the
  whole run of white space and gives back until a line feed follows: the match ends at the
  last line feed of the run, whose index \<open>blank_run_end\<close> returns.
\<close>

fun blank_run_end :: "ustr \<Rightarrow> nat option" where
  "blank_run_end [] = None"
| "blank_run_end (c # cs) =
     (if isspace c then
        (case blank_run_end cs of
           Some k \<Rightarrow> Some (Suc k)
         | None \<Rightarrow> if c = NL then Some 0 else None)
      else None)"

function collapse_blank_lines :: "ustr \<Rightarrow> ustr" where
  "collapse_blank_lines [] = []"
| "collapse_blank_lines (c # cs) =
     (if c = NL then
        (case blank_run_end cs of
           Some k \<Rightarrow> NL # NL # collapse_blank_lines (drop (Suc k) cs)
         | None \<Rightarrow> c # collapse_blank_lines cs)
      else c # collapse_blank_lines cs)"
  by pat_completeness auto
termination
  by (relation "measure length") auto

section \<open>ThinkingTokenProcessor\<close>

definition DEFAULT_REASONING_TAGS :: "(ustr \<times> ustr) list" where
  "DEFAULT_REASONING_TAGS =
     [(ascii ''<think>'', ascii ''</think>''),
      (ascii ''<thinking>'', ascii ''</thinking>''),
      (ascii ''<reason>'', ascii ''</reason>''),
      (ascii ''<reasoning>'', ascii ''</reasoning>''),
      (ascii ''<thought>'', ascii ''</thought>''),
      (ascii ''<Thought>'', ascii ''</Thought>''),
      (ascii ''<|begin_of_thought|>'', ascii ''<|end_of_thought|>''),
      ([226, 8212] @ ascii ''think'' @ [226, 8211, 183],
       [226, 8212] @ ascii ''/think'' @ [226, 8211, 183])]"

text \<open>
  The dictionary that \<^verbatim>\<open>detect_reasoning_tags\<close> builds for a match. The two time stamps
  are readings of \<^verbatim>\<open>time.time()\<close>; the clock is the sequence of its readings, and the
  number of readings taken so far is threaded through the loops.
\<close>

type_synonym clock = "nat \<Rightarrow> real"

record block =
  type :: ustr
  start_tag :: ustr
  end_tag :: ustr
  content :: ustr
  started_at :: real
  ended_at :: real
  duration :: int
  original_match :: ustr

fun match_loop ::
  "clock \<Rightarrow> ustr \<Rightarrow> ustr \<Rightarrow> ustr \<Rightarrow> rmatch list \<Rightarrow> block list \<times> nat \<Rightarrow> block list \<times> nat" where
  "match_loop clk st en s [] acc = acc"
| "match_loop clk st en s (m # ms) (blocks, n) =
     (let reasoning_content = (if group1 s m \<noteq> [] then strip (group1 s m) else [])
      in if reasoning_content \<noteq> [] then
           match_loop clk st en s ms
             (blocks @
                [\<lparr>type = ascii ''reasoning'', start_tag = st, end_tag = en,
                  content = reasoning_content, started_at = clk n,
                  ended_at = clk (Suc n) + 1, duration = 1,
                  original_match = group0 s m\<rparr>],
              n + 2)
         else match_loop clk st en s ms (blocks, n))"

fun tag_loop ::
  "clock \<Rightarrow> ustr \<Rightarrow> (ustr \<times> ustr) list \<Rightarrow> block list \<times> nat \<Rightarrow> block list \<times> nat" where
  "tag_loop clk s [] acc = acc"
| "tag_loop clk s ((st, en) # tags) acc =
     tag_loop clk s tags (match_loop clk st en s (finditer st en s) acc)"

text \<open>
  \<^verbatim>\<open>detect_reasoning_tags(content)\<close>, started when the clock has been read \<open>n\<close> times;
  the result is the list of blocks and the number of readings afterwards.
\<close>

definition detect_reasoning_tags :: "clock \<Rightarrow> nat \<Rightarrow> ustr \<Rightarrow> block list \<times> nat" where
  "detect_reasoning_tags clk n s = tag_loop clk s DEFAULT_REASONING_TAGS ([], n)"

record processed =
  main_content :: ustr
  reasoning_blocks :: "block list"
  total_reasoning_time :: int

fun remove_blocks :: "block list \<Rightarrow> ustr \<Rightarrow> ustr" where
  "remove_blocks [] processed_content = processed_content"
| "remove_blocks (b # bs) processed_content =
     remove_blocks bs (replace_del (original_match b) processed_content)"

definition process_content :: "clock \<Rightarrow> nat \<Rightarrow> ustr \<Rightarrow> processed \<times> nat" where
  "process_content clk n s =
     (let (blocks, n') = detect_reasoning_tags clk n s;
          processed_content = remove_blocks blocks s;
          processed_content = strip (collapse_blank_lines processed_content)
      in (\<lparr>main_content = processed_content, reasoning_blocks = blocks,
           total_reasoning_time = sum_list (map duration blocks)\<rparr>, n'))"

definition format_line :: "ustr \<Rightarrow> ustr" where
  "format_line line = (if \<not> prefix (ascii ''>'') line then ascii ''> '' @ line else line)"

definition html_block :: "block \<Rightarrow> ustr" where
  "html_block b =
     (let formatted_reasoning = join [NL] (map format_line (splitlines (content b)))
      in ascii ''<details type=\"reasoning\" done=\"true\" duration=\"'' @ str_int (duration b)
         @ ascii ''\">'' @ [NL]
         @ ascii ''<summary>Thought for '' @ str_int (duration b) @ ascii '' second''
         @ (if duration b \<noteq> 1 then ascii ''s'' else []) @ ascii ''</summary>'' @ [NL]
         @ formatted_reasoning @ [NL]
         @ ascii ''</details>'')"

fun block_loop :: "block list \<Rightarrow> ustr list \<Rightarrow> ustr list" where
  "block_loop [] html_parts = html_parts"
| "block_loop (b # bs) html_parts = block_loop bs (html_parts @ [html_block b])"

definition generate_html_output :: "processed \<Rightarrow> ustr" where
  "generate_html_output processed_data =
     (let html_parts = block_loop (reasoning_blocks processed_data) [];
          html_parts = (if main_content processed_data \<noteq> []
                        then html_parts @ [main_content processed_data] else html_parts)
      in join [NL, NL] html_parts)"

section \<open>Removal of rendered blocks\<close>

text \<open>
  The loop of \<^verbatim>\<open>test_remove_details_functionality\<close>:
  \<^verbatim>\<open>re.sub(rf'<details\s+type="{type_name}"[^>]*>.*?</details>', '', content,
  flags=re.DOTALL | re.IGNORECASE)\<close> for each type name in turn. Both type names of the
  test are free of pattern operators, so the name is a literal of the pattern.

  \<open>details_match\<close> is the length of the match at the head of \<open>s\<close>. The greedy
  \<^verbatim>\<open>\s+\<close> takes the whole run of white space (the next pattern character matches no
  white space, so giving back cannot help), and the greedy \<^verbatim>\<open>[^>]*\<close> runs up to the
  first \<^verbatim>\<open>>\<close>.
\<close>

definition details_match :: "ustr \<Rightarrow> ustr \<Rightarrow> nat option" where
  "details_match type_name s =
     (if lit_match (ascii ''<details'') s then
        (let r1 = drop 8 s; w = length (takeWhile isspace r1)
         in if w = 0 then None
            else
              (let attr = ascii ''type=\"'' @ type_name @ ascii ''\"''; r2 = drop w r1
               in if lit_match attr r2 then
                    (let r3 = drop (length attr) r2; a = length (takeWhile (\<lambda>c. c \<noteq> 62) r3)
                     in case drop a r3 of
                          [] \<Rightarrow> None
                        | gt # r4 \<Rightarrow>
                            (case lazy_until (ascii ''</details>'') r4 of
                               None \<Rightarrow> None
                             | Some k \<Rightarrow> Some (8 + w + length attr + a + 1 + k + 10)))
                  else None))
      else None)"

function sub_details :: "ustr \<Rightarrow> ustr \<Rightarrow> ustr" where
  "sub_details type_name [] = []"
| "sub_details type_name (c # cs) =
     (case details_match type_name (c # cs) of
        Some n \<Rightarrow> sub_details type_name (drop n (c # cs))
      | None \<Rightarrow> c # sub_details type_name cs)"
  by pat_completeness auto
termination
  by (relation "measure (\<lambda>(type_name, s). length s)")
    (auto simp: details_match_def Let_def split: if_splits list.splits option.splits)

fun remove_details :: "ustr list \<Rightarrow> ustr \<Rightarrow> ustr" where
  "remove_details [] s = s"
| "remove_details (type_name # types_to_remove) s =
     remove_details types_to_remove (sub_details type_name s)"

section \<open>Sample data\<close>

text \<open>A clock whose \<open>n\<close>-th reading is \<open>n\<close> seconds, and a block with a given duration.\<close>

definition sample_clock :: clock where
  "sample_clock n = real n"

definition sample_block :: "int \<Rightarrow> block" where
  "sample_block d =
     \<lparr>type = ascii ''reasoning'', start_tag = ascii ''<think>'', end_tag = ascii ''</think>'',
      content = ascii ''x'', started_at = 0, ended_at = 1, duration = d,
      original_match = ascii ''<think>x</think>''\<rparr>"

section \<open>Predicates of the statements\<close>

text \<open>What \<^verbatim>\<open>detect_reasoning_tags\<close> puts into every block, whatever the match.\<close>

definition block_ok :: "block \<Rightarrow> bool" where
  "block_ok b \<longleftrightarrow>
     type b = ascii ''reasoning'' \<and> content b \<noteq> [] \<and> strip (content b) = content b \<and>
     duration b = 1"

text \<open>
  The positions at which a literal matches in a text, letter case ignored as the patterns
  ignore it, in ascending order.
\<close>

fun occurrences_from :: "ustr \<Rightarrow> nat \<Rightarrow> ustr \<Rightarrow> nat list" where
  "occurrences_from lit pos [] = (if lit_match lit [] then [pos] else [])"
| "occurrences_from lit pos (c # cs) =
     (if lit_match lit (c # cs) then pos # occurrences_from lit (Suc pos) cs
      else occurrences_from lit (Suc pos) cs)"

definition occurrences :: "ustr \<Rightarrow> ustr \<Rightarrow> nat list" where
  "occurrences lit s = occurrences_from lit 0 s"

text \<open>The block that \<^verbatim>\<open>detect_reasoning_tags\<close> appends for a match, at clock reading \<open>n\<close>.\<close>

definition new_block :: "clock \<Rightarrow> nat \<Rightarrow> ustr \<Rightarrow> ustr \<Rightarrow> ustr \<Rightarrow> rmatch \<Rightarrow> block" where
  "new_block clk n st en s m =
     \<lparr>type = ascii ''reasoning'', start_tag = st, end_tag = en, content = strip (group1 s m),
      started_at = clk n, ended_at = clk (Suc n) + 1, duration = 1,
      original_match = group0 s m\<rparr>"

text \<open>
  \<open>m\<close> is a match of the pattern in \<open>s\<close>, given that \<open>s\<close> starts at position \<open>pos\<close>:
  both literals match where the spans say, and the end literal matches nowhere inside the
  group.
\<close>

definition match_at :: "ustr \<Rightarrow> ustr \<Rightarrow> nat \<Rightarrow> ustr \<Rightarrow> rmatch \<Rightarrow> bool" where
  "match_at st en pos s m \<longleftrightarrow>
     (\<exists>a k. m = \<lparr>m_start = pos + a, g_start = pos + a + length st,
                  g_end = pos + a + length st + k, m_end = pos + a + length st + k + length en\<rparr> \<and>
           a + length st + k + length en \<le> length s \<and>
           lit_match st (drop a s) \<and> lit_match en (drop (a + length st + k) s) \<and>
           (\<forall>j<k. \<not> lit_match en (drop (a + length st + j) s)))"

text \<open>
  \<open>x\<close> is the literal up to letter case: it has the literal's length and each of its
  characters is one that the literal's character matches under \<^verbatim>\<open>re.IGNORECASE\<close>.
\<close>

definition case_variant :: "ustr \<Rightarrow> ustr \<Rightarrow> bool" where
  "case_variant lit x \<longleftrightarrow> list_all2 ignorecase_eq lit x"

text \<open>No character of the literal matches a character of white space.\<close>

definition spaceless :: "ustr \<Rightarrow> bool" where
  "spaceless lit \<longleftrightarrow> list_all (\<lambda>p. \<not> isspace (unicode_tolower p)) lit"



text \<open>
  The block for the span start + content + end, made when the clock has been read \<open>n\<close>
  times.
\<close>

definition span_block :: "clock \<Rightarrow> nat \<Rightarrow> ustr \<Rightarrow> ustr \<Rightarrow> ustr \<Rightarrow> block" where
  "span_block clk n st en c =
     \<lparr>type = ascii ''reasoning'', start_tag = st, end_tag = en, content = strip c,
      started_at = clk n, ended_at = clk (Suc n) + 1, duration = 1,
      original_match = st @ c @ en\<rparr>"

text \<open>A text whose \<^verbatim>\<open><reasoning>\<close> span comes before its \<^verbatim>\<open><thinking>\<close> span.\<close>

definition reasoning_first :: ustr where
  "reasoning_first = ascii ''<reasoning>a</reasoning><thinking>b</thinking>''"

section \<open>Named wrapper blocks\<close>

text \<open>
  The literals of the pattern \<^verbatim>\<open><details\s+type="{type_name}"[^>]*>.*?</details>\<close>.
\<close>

definition details_open :: ustr where
  "details_open = ascii ''<details''"

definition details_close :: ustr where
  "details_close = ascii ''</details>''"

definition type_attr :: "ustr \<Rightarrow> ustr" where
  "type_attr type_name = ascii ''type=\"'' @ type_name @ ascii ''\"''"

text \<open>\<^verbatim>\<open>types_to_remove\<close> of \<^verbatim>\<open>test_remove_details_functionality\<close>.\<close>

definition types_to_remove :: "ustr list" where
  "types_to_remove = [ascii ''reasoning'', ascii ''code_interpreter'']"

text \<open>
  A named wrapper block, in its parts: the opening literal, the white space behind it, the
  type declaration, the additional attributes up to the closing angle bracket, the body and
  the closing wrapper.
\<close>

record wrapper =
  w_open :: ustr
  w_gap :: ustr
  w_type :: ustr
  w_attrs :: ustr
  w_body :: ustr
  w_close :: ustr

definition wrapper_text :: "wrapper \<Rightarrow> ustr" where
  "wrapper_text w = w_open w @ w_gap w @ w_type w @ w_attrs w @ [62] @ w_body w @ w_close w"

text \<open>
  \<open>w\<close> is a wrapper block of type \<open>type_name\<close>: its literals are the pattern's up to letter
  case, the gap is white space and not empty, the additional attributes hold no
  \<^verbatim>\<open>>\<close>, the closing wrapper is the first one behind the opening wrapper, and no
  further wrapper opens inside the block.
\<close>

definition is_wrapper :: "ustr \<Rightarrow> wrapper \<Rightarrow> bool" where
  "is_wrapper type_name w \<longleftrightarrow>
     case_variant details_open (w_open w) \<and>
     w_gap w \<noteq> [] \<and> list_all isspace (w_gap w) \<and>
     case_variant (type_attr type_name) (w_type w) \<and>
     62 \<notin> set (w_attrs w) \<and>
     case_variant details_close (w_close w) \<and>
     occurrences details_close (w_body w @ w_close w) = [length (w_body w)] \<and>
     occurrences details_open (wrapper_text w) = [0]"

text \<open>A text as a sequence of plain text segments and wrapper blocks.\<close>

datatype segment = Plain ustr | Wrapped ustr wrapper

fun seg_text :: "segment \<Rightarrow> ustr" where
  "seg_text (Plain p) = p"
| "seg_text (Wrapped type_name w) = wrapper_text w"

fun plain_part :: "segment \<Rightarrow> ustr" where
  "plain_part (Plain p) = p"
| "plain_part (Wrapped type_name w) = []"

definition text_of :: "segment list \<Rightarrow> ustr" where
  "text_of segs = concat (map seg_text segs)"

definition plain_of :: "segment list \<Rightarrow> ustr" where
  "plain_of segs = concat (map plain_part segs)"

text \<open>The positions of \<open>text_of segs\<close> at which a wrapper block starts.\<close>

fun starts :: "segment list \<Rightarrow> nat list" where
  "starts [] = []"
| "starts (Plain p # segs) = map ((+) (length p)) (starts segs)"
| "starts (Wrapped type_name w # segs) = 0 # map ((+) (length (wrapper_text w))) (starts segs)"

fun seg_ok :: "segment \<Rightarrow> bool" where
  "seg_ok (Plain p) = True"
| "seg_ok (Wrapped type_name w) = (type_name \<in> set types_to_remove \<and> is_wrapper type_name w)"

text \<open>
  Wrapper blocks of the two types interleaved with plain text: every block is a wrapper
  block of one of the types, and the plain text, put together, opens no wrapper.
\<close>

definition well_formed :: "segment list \<Rightarrow> bool" where
  "well_formed segs \<longleftrightarrow> list_all seg_ok segs \<and> occurrences details_open (plain_of segs) = []"

fun is_type :: "ustr \<Rightarrow> segment \<Rightarrow> bool" where
  "is_type ty (Plain p) = False"
| "is_type ty (Wrapped type_name w) = (type_name = ty)"

definition without_type :: "ustr \<Rightarrow> segment list \<Rightarrow> segment list" where
  "without_type ty segs = filter (\<lambda>seg. \<not> is_type ty seg) segs"

text \<open>
  Two blocks between plain text; the second one in other letter case, with a line break in
  its gap and without additional attributes.
\<close>

definition sample_segments :: "segment list" where
  "sample_segments =
     [Plain (ascii ''a''),
      Wrapped (ascii ''reasoning'')
        \<lparr>w_open = ascii ''<details'', w_gap = ascii '' '', w_type = ascii ''type=\"reasoning\"'',
         w_attrs = ascii '' done=\"true\"'', w_body = ascii ''x'', w_close = ascii ''</details>''\<rparr>,
      Plain (ascii ''b''),
      Wrapped (ascii ''code_interpreter'')
        \<lparr>w_open = ascii ''<DETAILS'', w_gap = [32, 10], w_type = ascii ''Type=\"Code_Interpreter\"'',
         w_attrs = [], w_body = ascii ''y'', w_close = ascii ''</Details>''\<rparr>,
      Plain (ascii ''c'')]"

section \<open>Evaluation\<close>

text \<open>The equations that evaluate a scan of a concrete text.\<close>

lemmas scan_eval = detect_reasoning_tags_def DEFAULT_REASONING_TAGS_def ascii_def finditer_def
  finditer_from.simps(2) ignorecase_eq_def unicode_tolower_def group0_def group1_def slice_def
  strip_def isspace_def Let_def

text \<open>The equations that evaluate the occurrences of a literal in a concrete text.\<close>

lemmas occ_eval = DEFAULT_REASONING_TAGS_def ascii_def occurrences_def ignorecase_eq_def
  unicode_tolower_def

text \<open>The equations that evaluate \<open>well_formed\<close> on concrete segments.\<close>

lemmas seg_eval = sample_segments_def well_formed_def is_wrapper_def wrapper_text_def case_variant_def
  details_open_def details_close_def type_attr_def types_to_remove_def plain_of_def text_of_def
  isspace_def occ_eval

section \<open>Stripping\<close>

lemma rstrip_keeps_head:
  assumes "\<not> P x"
  shows "\<exists>zs. rev (dropWhile P (rev (x # xs))) = x # zs"
proof -
  have "dropWhile P (rev xs @ [x]) = (if \<forall>y\<in>set (rev xs). P y then [x] else dropWhile P (rev xs) @ [x])"
    using assms by (simp add: dropWhile_append)
  then have "rev (dropWhile P (rev (x # xs))) = x # (if \<forall>y\<in>set (rev xs). P y then [] else rev (dropWhile P (rev xs)))"
    by simp
  then show ?thesis by blast
qed

lemma dropWhile_fixed: "s = [] \<or> \<not> P (hd s) \<Longrightarrow> dropWhile P s = s"
  by (cases s) auto

lemma dropWhile_head: "dropWhile P s = [] \<or> \<not> P (hd (dropWhile P s))"
  by (metis hd_dropWhile)

lemma strip_head: "strip s = [] \<or> \<not> isspace (hd (strip s))"
proof (cases "dropWhile isspace s")
  case Nil
  show ?thesis unfolding strip_def Nil by simp
next
  case (Cons x xs)
  then have "\<not> isspace x" using dropWhile_head [of isspace s] by simp
  from rstrip_keeps_head [of isspace x xs] this Cons show ?thesis by (auto simp: strip_def)
qed

lemma strip_last: "strip s = [] \<or> \<not> isspace (last (strip s))"
proof -
  let ?u = "dropWhile isspace (rev (dropWhile isspace s))"
  have "?u = [] \<or> \<not> isspace (hd ?u)" by (rule dropWhile_head)
  then show ?thesis by (auto simp: strip_def last_rev)
qed

lemma strip_fixed:
  assumes "s = [] \<or> (\<not> isspace (hd s) \<and> \<not> isspace (last s))"
  shows "strip s = s"
proof (cases "s = []")
  case True then show ?thesis by (simp add: strip_def)
next
  case False
  with assms have h: "\<not> isspace (hd s)" and l: "\<not> isspace (last s)" by auto
  have 1: "dropWhile isspace s = s" using h False by (simp add: dropWhile_fixed)
  have "hd (rev s) = last s" using False by (simp add: hd_rev)
  then have 2: "dropWhile isspace (rev s) = rev s" using l False by (simp add: dropWhile_fixed)
  show ?thesis by (simp add: strip_def 1 2)
qed

lemma strip_idem: "strip (strip s) = strip s"
  using strip_head [of s] strip_last [of s] by (intro strip_fixed) auto

section \<open>The blocks of detect\_reasoning\_tags\<close>

lemma match_loop_ok:
  "\<forall>b\<in>set (fst acc). block_ok b \<Longrightarrow> \<forall>b\<in>set (fst (match_loop clk st en s ms acc)). block_ok b"
proof (induction ms arbitrary: acc)
  case Nil then show ?case by simp
next
  case (Cons m ms)
  obtain blocks n where acc: "acc = (blocks, n)" by (cases acc)
  let ?rc = "if group1 s m \<noteq> [] then strip (group1 s m) else []"
  show ?case
  proof (cases "?rc \<noteq> []")
    case True
    then have rc: "?rc = strip (group1 s m)" by (simp split: if_splits)
    have "\<forall>b\<in>set (fst (blocks @
                [\<lparr>type = ascii ''reasoning'', start_tag = st, end_tag = en,
                  content = ?rc, started_at = clk n,
                  ended_at = clk (Suc n) + 1, duration = 1,
                  original_match = group0 s m\<rparr>], n + 2)). block_ok b"
      using Cons.prems True unfolding acc rc by (auto simp: block_ok_def strip_idem)
    from Cons.IH [OF this] True show ?thesis unfolding acc by (simp add: Let_def)
  next
    case False
    from Cons.IH [OF Cons.prems] False show ?thesis unfolding acc by (simp add: Let_def)
  qed
qed

lemma tag_loop_ok:
  "\<forall>b\<in>set (fst acc). block_ok b \<Longrightarrow> \<forall>b\<in>set (fst (tag_loop clk s tags acc)). block_ok b"
proof (induction tags arbitrary: acc)
  case Nil then show ?case by simp
next
  case (Cons t tags)
  obtain st en where t: "t = (st, en)" by (cases t)
  show ?case unfolding t tag_loop.simps
    by (rule Cons.IH) (rule match_loop_ok [OF Cons.prems])
qed

lemma detect_think_x:
  "fst (detect_reasoning_tags sample_clock 0 (ascii ''<think>x</think>'')) =
     [\<lparr>type = ascii ''reasoning'', start_tag = ascii ''<think>'', end_tag = ascii ''</think>'',
       content = ascii ''x'', started_at = 0, ended_at = 2, duration = 1,
       original_match = ascii ''<think>x</think>''\<rparr>]"
  by (simp add: scan_eval sample_clock_def)

text \<open>
  C10. Every block that \<^verbatim>\<open>detect_reasoning_tags\<close> returns, for every text and every
  clock, has the type "reasoning", a content that is not empty and is its own stripped
  form (so it neither starts nor ends with white space), and the duration 1: the duration
  is the constant of the code, not a difference of the clock readings.
\<close>

theorem detected_block_fields:
  "\<forall>b\<in>set (fst (detect_reasoning_tags clk n s)).
     type b = ascii ''reasoning'' \<and> content b \<noteq> [] \<and> strip (content b) = content b \<and>
     \<not> isspace (hd (content b)) \<and> \<not> isspace (last (content b)) \<and> duration b = 1"
proof
  fix b assume "b \<in> set (fst (detect_reasoning_tags clk n s))"
  then have ok: "block_ok b"
    using tag_loop_ok [of "([], n)" clk s DEFAULT_REASONING_TAGS]
    by (simp add: detect_reasoning_tags_def)
  then have c: "content b \<noteq> []" "strip (content b) = content b" by (simp_all add: block_ok_def)
  with strip_head [of "content b"] strip_last [of "content b"]
  have "\<not> isspace (hd (content b))" "\<not> isspace (last (content b))" by simp_all
  with ok show "type b = ascii ''reasoning'' \<and> content b \<noteq> [] \<and> strip (content b) = content b \<and>
     \<not> isspace (hd (content b)) \<and> \<not> isspace (last (content b)) \<and> duration b = 1"
    by (simp add: block_ok_def)
qed

theorem detected_block_fields_witness:
  "fst (detect_reasoning_tags sample_clock 0 (ascii ''<think>x</think>'')) = [sample_block 1\<lparr>ended_at := 2\<rparr>] \<and>
   (type (sample_block 1\<lparr>ended_at := 2\<rparr>) = ascii ''reasoning'' \<and> content (sample_block 1\<lparr>ended_at := 2\<rparr>) \<noteq> [] \<and>
    strip (content (sample_block 1\<lparr>ended_at := 2\<rparr>)) = content (sample_block 1\<lparr>ended_at := 2\<rparr>) \<and>
    \<not> isspace (hd (content (sample_block 1\<lparr>ended_at := 2\<rparr>))) \<and> \<not> isspace (last (content (sample_block 1\<lparr>ended_at := 2\<rparr>))) \<and>
    duration (sample_block 1\<lparr>ended_at := 2\<rparr>) = 1)"
proof -
  have e: "fst (detect_reasoning_tags sample_clock 0 (ascii ''<think>x</think>'')) = [sample_block 1\<lparr>ended_at := 2\<rparr>]"
    by (simp add: detect_think_x sample_block_def)
  then have "sample_block 1\<lparr>ended_at := 2\<rparr> \<in> set (fst (detect_reasoning_tags sample_clock 0 (ascii ''<think>x</think>'')))"
    by simp
  from e detected_block_fields [THEN bspec, OF this] show ?thesis by (rule conjI)
qed
section \<open>Rendering\<close>

lemma splitlines_from_line:
  "\<forall>c\<in>set xs. \<not> is_linebreak c \<Longrightarrow>
   splitlines_from cur (xs @ NL # rest) = (cur @ xs) # splitlines_from [] rest"
proof (induction xs arbitrary: cur)
  case Nil
  show ?case by (cases rest) (simp_all add: is_linebreak_def)
next
  case (Cons x xs)
  obtain d ds where t: "xs @ NL # rest = d # ds" by (cases "xs @ NL # rest") auto
  have lb: "is_linebreak 13" by (simp add: is_linebreak_def)
  have x: "\<not> is_linebreak x" using Cons.prems by simp
  with lb have x13: "x \<noteq> 13" by blast
  have "splitlines_from cur ((x # xs) @ NL # rest) = splitlines_from (cur @ [x]) (xs @ NL # rest)"
    using x x13 by (simp add: t)
  also have "\<dots> = ((cur @ [x]) @ xs) # splitlines_from [] rest"
    using Cons.prems by (intro Cons.IH) simp
  finally show ?case by simp
qed

lemma str_nat_digits: "\<forall>c\<in>set (str_nat n). 48 \<le> c \<and> c \<le> 57"
proof (induction n rule: str_nat.induct)
  case (1 n)
  show ?case
  proof (cases "n < 10")
    case True then show ?thesis by (subst str_nat.simps) simp
  next
    case False
    have "n mod 10 < 10" by simp
    then have "48 + n mod 10 \<le> 57" by linarith
    with False 1 show ?thesis by (subst str_nat.simps) auto
  qed
qed

lemma str_int_no_linebreak: "\<forall>c\<in>set (str_int i). \<not> is_linebreak c"
proof
  fix c assume "c \<in> set (str_int i)"
  then have "c = 45 \<or> c \<in> set (str_nat (nat (- i))) \<or> c \<in> set (str_nat (nat i))"
    by (auto simp: str_int_def split: if_splits)
  then have "c = 45 \<or> (48 \<le> c \<and> c \<le> 57)" using str_nat_digits by blast
  then show "\<not> is_linebreak c" by (auto simp: is_linebreak_def)
qed

lemma ascii_no_linebreak_header:
  "\<forall>c\<in>set (ascii ''<details type=\"reasoning\" done=\"true\" duration=\"''). \<not> is_linebreak c"
  by (simp add: ascii_def is_linebreak_def)

lemma html_block_lines:
  "splitlines (html_block b) =
     (ascii ''<details type=\"reasoning\" done=\"true\" duration=\"'' @ str_int (duration b) @ ascii ''\">'')
     # (ascii ''<summary>Thought for '' @ str_int (duration b) @ ascii '' second''
         @ (if duration b \<noteq> 1 then ascii ''s'' else []) @ ascii ''</summary>'')
     # splitlines_from [] (join [NL] (map format_line (splitlines (content b))) @ [NL] @ ascii ''</details>'')"
proof -
  let ?h = "ascii ''<details type=\"reasoning\" done=\"true\" duration=\"'' @ str_int (duration b) @ ascii ''\">''"
  let ?s = "ascii ''<summary>Thought for '' @ str_int (duration b) @ ascii '' second''
         @ (if duration b \<noteq> 1 then ascii ''s'' else []) @ ascii ''</summary>''"
  let ?r = "join [NL] (map format_line (splitlines (content b))) @ [NL] @ ascii ''</details>''"
  have a1: "\<forall>c\<in>set (ascii ''\">''). \<not> is_linebreak c"
    by (simp add: ascii_def is_linebreak_def)
  have a2: "\<forall>c\<in>set (ascii ''<summary>Thought for ''). \<not> is_linebreak c"
    by (simp add: ascii_def is_linebreak_def)
  have a3: "\<forall>c\<in>set (ascii '' second''). \<not> is_linebreak c"
    by (simp add: ascii_def is_linebreak_def)
  have a4: "\<forall>c\<in>set (ascii ''s''). \<not> is_linebreak c"
    by (simp add: ascii_def is_linebreak_def)
  have a5: "\<forall>c\<in>set (ascii ''</summary>''). \<not> is_linebreak c"
    by (simp add: ascii_def is_linebreak_def)
  have h: "\<forall>c\<in>set ?h. \<not> is_linebreak c"
    using str_int_no_linebreak [of "duration b"] ascii_no_linebreak_header a1
    by (simp add: ball_Un)
  have s: "\<forall>c\<in>set ?s. \<not> is_linebreak c"
    using str_int_no_linebreak [of "duration b"] a2 a3 a4 a5
    by (simp add: ball_Un)
  have "html_block b = ?h @ NL # (?s @ NL # ?r)"
    by (simp add: html_block_def Let_def)
  then have "splitlines (html_block b) = splitlines_from [] (?h @ NL # (?s @ NL # ?r))"
    by (simp only: splitlines_def)
  also have "\<dots> = ([] @ ?h) # splitlines_from [] (?s @ NL # ?r)"
    by (rule splitlines_from_line [OF h])
  also have "splitlines_from [] (?s @ NL # ?r) = ([] @ ?s) # splitlines_from [] ?r"
    by (rule splitlines_from_line [OF s])
  finally show ?thesis by simp
qed

lemma str_int_1: "str_int 1 = ascii ''1''"
  by (simp add: str_int_def str_nat.simps ascii_def)


text \<open>
  C9. The second line of a rendered block is the summary. For the duration 1 it reads
  "Thought for 1 second"; for every other integer duration \<open>d\<close> (0, 2, negative ones)
  it reads "Thought for d seconds".
\<close>

theorem summary_pluralization:
  "(duration b = 1 \<longrightarrow>
      splitlines (html_block b) ! 1 = ascii ''<summary>Thought for 1 second</summary>'') \<and>
   (duration b \<noteq> 1 \<longrightarrow>
      splitlines (html_block b) ! 1 =
        ascii ''<summary>Thought for '' @ str_int (duration b) @ ascii '' seconds</summary>'')"
  by (simp add: html_block_lines str_int_1) (simp add: ascii_def)

theorem summary_pluralization_witness:
  "duration (sample_block 1) = 1 \<and>
   splitlines (html_block (sample_block 1)) ! 1 = ascii ''<summary>Thought for 1 second</summary>'' \<and>
   duration (sample_block 0) \<noteq> 1 \<and>
   splitlines (html_block (sample_block 0)) ! 1 = ascii ''<summary>Thought for 0 seconds</summary>'' \<and>
   duration (sample_block 2) \<noteq> 1 \<and>
   splitlines (html_block (sample_block 2)) ! 1 = ascii ''<summary>Thought for 2 seconds</summary>''"
  using summary_pluralization [of "sample_block 1"] summary_pluralization [of "sample_block 0"]
    summary_pluralization [of "sample_block 2"]
  by (simp add: sample_block_def str_int_def str_nat.simps ascii_def)

lemma block_loop_append: "block_loop bs html_parts = html_parts @ map html_block bs"
  by (induction bs arbitrary: html_parts) auto

lemma generate_html_output_parts:
  "generate_html_output processed_data =
     join [NL, NL]
       (map html_block (reasoning_blocks processed_data) @
        (if main_content processed_data \<noteq> [] then [main_content processed_data] else []))"
  by (simp add: generate_html_output_def block_loop_append)

section \<open>Literal matching\<close>

lemma ignorecase_eq_refl: "ignorecase_eq c c"
  by (simp add: ignorecase_eq_def)

lemma lit_match_length: "lit_match l s \<Longrightarrow> length l \<le> length s"
  by (induction l s rule: lit_match.induct) auto

lemma lit_match_iff:
  "lit_match l s \<longleftrightarrow> length l \<le> length s \<and> list_all2 ignorecase_eq l (take (length l) s)"
  by (induction l s rule: lit_match.induct) auto

lemma lit_match_append_same: "lit_match l (l @ r)"
  by (induction l) (auto simp: ignorecase_eq_refl)

lemma lit_match_prefix: "prefix l s \<Longrightarrow> lit_match l s"
  by (auto simp: prefix_def lit_match_append_same)

lemma lit_match_appendI: "lit_match l s \<Longrightarrow> lit_match l (s @ t)"
  by (induction l s rule: lit_match.induct) auto

lemma lit_match_append_left:
  "length l \<le> length s \<Longrightarrow> lit_match l (s @ t) \<longleftrightarrow> lit_match l s"
  by (induction l s rule: lit_match.induct) auto

lemma lit_match_take:
  "length l \<le> n \<Longrightarrow> lit_match l (take n s) \<longleftrightarrow> lit_match l s"
  by (simp add: lit_match_iff min_def)

lemma lit_match_drop_beyond:
  "l \<noteq> [] \<Longrightarrow> length s \<le> i \<Longrightarrow> \<not> lit_match l (drop i s)"
  by (cases l) auto

lemma lit_match_nth:
  "lit_match l s \<Longrightarrow> j < length l \<Longrightarrow> ignorecase_eq (l ! j) (s ! j)"
  by (auto simp: lit_match_iff list_all2_conv_all_nth)

lemma lit_match_append_lit: "lit_match (a @ b) s \<Longrightarrow> lit_match a s"
  by (induction a s rule: lit_match.induct) auto

lemma lit_match_lit_append:
  "lit_match (a @ b) s \<longleftrightarrow> lit_match a s \<and> lit_match b (drop (length a) s)"
  by (induction a s rule: lit_match.induct) auto

section \<open>The lazy group\<close>

lemma lazy_until_Some:
  "lazy_until l s = Some k \<longleftrightarrow>
     k \<le> length s \<and> lit_match l (drop k s) \<and> (\<forall>j<k. \<not> lit_match l (drop j s))"
proof (induction s arbitrary: k)
  case Nil
  show ?case by auto
next
  case (Cons c cs)
  show ?case
  proof (cases "lit_match l (c # cs)")
    case True
    then show ?thesis by (cases k) auto
  next
    case False
    show ?thesis
    proof (cases k)
      case 0
      with False show ?thesis by auto
    next
      case (Suc k')
      have "(\<forall>j<Suc k'. \<not> lit_match l (drop j (c # cs))) \<longleftrightarrow> (\<forall>j<k'. \<not> lit_match l (drop j cs))"
        using False by (auto simp: less_Suc_eq_0_disj)
      with False Suc Cons.IH [of k'] show ?thesis by auto
    qed
  qed
qed

lemma lazy_until_None:
  "lazy_until l s = None \<longleftrightarrow> (\<forall>j. \<not> lit_match l (drop j s))"
proof (induction s)
  case Nil
  show ?case by auto
next
  case (Cons c cs)
  have "(\<forall>j. \<not> lit_match l (drop j (c # cs))) \<longleftrightarrow>
        \<not> lit_match l (c # cs) \<and> (\<forall>j. \<not> lit_match l (drop j cs))"
  proof (intro iffI conjI allI)
    assume a: "\<forall>j. \<not> lit_match l (drop j (c # cs))"
    from a [rule_format, of 0] show "\<not> lit_match l (c # cs)" by simp
    fix j from a [rule_format, of "Suc j"] show "\<not> lit_match l (drop j cs)" by simp
  next
    fix j assume a: "\<not> lit_match l (c # cs) \<and> (\<forall>j. \<not> lit_match l (drop j cs))"
    then show "\<not> lit_match l (drop j (c # cs))" by (cases j) auto
  qed
  with Cons show ?case by auto
qed

section \<open>The scan\<close>

lemma finditer_from_no_start:
  "st \<noteq> [] \<Longrightarrow> \<forall>i. \<not> lit_match st (drop i s) \<Longrightarrow> finditer_from st en pos s = []"
proof (induction s arbitrary: pos)
  case Nil
  then show ?case by simp
next
  case (Cons c cs)
  from Cons.prems(2) [rule_format, of 0] have 0: "\<not> lit_match st (c # cs)" by simp
  have "\<forall>i. \<not> lit_match st (drop i cs)"
  proof
    fix i from Cons.prems(2) [rule_format, of "Suc i"] show "\<not> lit_match st (drop i cs)" by simp
  qed
  from Cons.IH [OF Cons.prems(1) this] 0 show ?case by (simp add: finditer_from.simps(2))
qed

lemma finditer_from_no_end:
  "\<forall>j. \<not> lit_match en (drop j s) \<Longrightarrow> finditer_from st en pos s = []"
proof (induction s arbitrary: pos)
  case Nil
  from Nil [rule_format, of 0] have "en \<noteq> []" by auto
  then show ?case by simp
next
  case (Cons c cs)
  have "\<forall>j. \<not> lit_match en (drop j (drop (length st) (c # cs)))"
  proof
    fix j from Cons.prems [rule_format, of "j + length st"]
    show "\<not> lit_match en (drop j (drop (length st) (c # cs)))" by simp
  qed
  then have n: "lazy_until en (drop (length st) (c # cs)) = None" by (subst lazy_until_None)
  have "\<forall>j. \<not> lit_match en (drop j cs)"
  proof
    fix j from Cons.prems [rule_format, of "Suc j"] show "\<not> lit_match en (drop j cs)" by simp
  qed
  from Cons.IH [OF this] n show ?case by (simp add: finditer_from.simps(2))
qed

lemma finditer_from_skip:
  "\<forall>i<j. \<not> lit_match st (drop i s) \<Longrightarrow> j \<le> length s \<Longrightarrow>
   finditer_from st en pos s = finditer_from st en (pos + j) (drop j s)"
proof (induction j arbitrary: pos s)
  case 0
  show ?case by simp
next
  case (Suc j)
  from Suc.prems(2) obtain c cs where s: "s = c # cs" by (cases s) auto
  from Suc.prems(1) [rule_format, of 0] have 0: "\<not> lit_match st (c # cs)" by (simp add: s)
  have "\<forall>i<j. \<not> lit_match st (drop i cs)"
  proof (intro allI impI)
    fix i assume "i < j"
    with Suc.prems(1) [rule_format, of "Suc i"] show "\<not> lit_match st (drop i cs)" by (simp add: s)
  qed
  from Suc.IH [OF this, of "Suc pos"] Suc.prems(2) 0 show ?case
    by (simp add: s finditer_from.simps(2))
qed

lemma finditer_from_unique:
  assumes st: "st \<noteq> []"
    and at: "lit_match st (drop a s)"
    and only: "\<forall>i. lit_match st (drop i s) \<longrightarrow> i = a"
    and en: "lazy_until en (drop (a + length st) s) = Some k"
  shows "finditer_from st en pos s =
           [\<lparr>m_start = pos + a, g_start = pos + a + length st, g_end = pos + a + length st + k,
             m_end = pos + a + length st + k + length en\<rparr>]"
proof -
  have a: "a < length s" using at st lit_match_drop_beyond [of st s a] by (cases "a < length s") auto
  have "\<forall>i<a. \<not> lit_match st (drop i s)" using only by blast
  then have 1: "finditer_from st en pos s = finditer_from st en (pos + a) (drop a s)"
    using a by (intro finditer_from_skip) auto
  obtain c cs where d: "drop a s = c # cs" using a by (cases "drop a s") auto
  define n where "n = length st + k + length en"
  have en': "lazy_until en (drop (length st) (c # cs)) = Some k"
    using en by (simp add: d [symmetric] add.commute)
  have n1: "1 \<le> n" using st by (cases st) (simp_all add: n_def)
  then have n: "max 1 n = n" by simp
  have "\<forall>i. \<not> lit_match st (drop i (drop n (c # cs)))"
  proof
    fix i
    have "drop i (drop n (c # cs)) = drop (i + n + a) s" by (simp add: d [symmetric] add.commute add.left_commute)
    moreover have "i + n + a \<noteq> a" using n1 by linarith
    ultimately show "\<not> lit_match st (drop i (drop n (c # cs)))" using only by metis
  qed
  from finditer_from_no_start [OF st this]
  have 2: "finditer_from st en (pos + a + n) (drop n (c # cs)) = []" .
  have "finditer_from st en (pos + a) (c # cs) =
          \<lparr>m_start = pos + a, g_start = pos + a + length st, g_end = pos + a + length st + k,
             m_end = pos + a + length st + k + length en\<rparr>
          # finditer_from st en (pos + a + max 1 n) (drop (max 1 n) (c # cs))"
    using at en' unfolding d n_def by (subst finditer_from.simps(2)) simp
  with 1 2 d n show ?thesis by simp
qed

text \<open>What every match of the scan is.\<close>

lemma match_at_shift:
  assumes "match_at st en (pos + n) (drop n s) m" "n \<le> length s"
  shows "match_at st en pos s m"
proof -
  from assms(1) obtain a k where ih:
    "m = \<lparr>m_start = pos + n + a, g_start = pos + n + a + length st,
                  g_end = pos + n + a + length st + k, m_end = pos + n + a + length st + k + length en\<rparr>"
    "a + length st + k + length en \<le> length (drop n s)"
    "lit_match st (drop a (drop n s))" "lit_match en (drop (a + length st + k) (drop n s))"
    "\<forall>j<k. \<not> lit_match en (drop (a + length st + j) (drop n s))"
    unfolding match_at_def by blast
  have e: "\<And>x. a + length st + x + n = n + a + length st + x" by linarith
  have 1: "m = \<lparr>m_start = pos + (n + a), g_start = pos + (n + a) + length st,
              g_end = pos + (n + a) + length st + k,
              m_end = pos + (n + a) + length st + k + length en\<rparr>"
    unfolding ih(1) by (simp add: add.assoc)
  have 2: "n + a + length st + k + length en \<le> length s"
    using ih(2) assms(2) by simp
  have 3: "lit_match st (drop (n + a) s)"
    using ih(3) by (simp add: add.commute)
  have 4: "lit_match en (drop (n + a + length st + k) s)"
    using ih(4) by (simp add: e)
  have 5: "\<forall>i<k. \<not> lit_match en (drop (n + a + length st + i) s)"
    using ih(5) by (simp add: e)
  from 1 2 3 4 5 show ?thesis unfolding match_at_def by blast
qed

lemma finditer_from_props:
  "m \<in> set (finditer_from st en pos s) \<Longrightarrow> match_at st en pos s m"
proof (induction st en pos s rule: finditer_from.induct)
  case (1 st en pos)
  then have "st = []" "en = []" "m = \<lparr>m_start = pos, g_start = pos, g_end = pos, m_end = pos\<rparr>"
    by (auto split: if_splits)
  then show ?case unfolding match_at_def by (intro exI [of _ 0]) simp
next
  case (2 st en pos c cs)
  let ?s = "c # cs"
  have shift: "match_at st en pos ?s m" if "match_at st en (Suc pos) cs m"
    using match_at_shift [of st en pos 1 ?s m] that by simp
  show ?case
  proof (cases "lit_match st ?s")
    case False
    with "2.prems" have m: "m \<in> set (finditer_from st en (Suc pos) cs)"
      by (simp add: finditer_from.simps(2))
    from shift [OF "2.IH"(3) [OF False m]] show ?thesis .
  next
    case True
    show ?thesis
    proof (cases "lazy_until en (drop (length st) ?s)")
      case None
      with True "2.prems" have m: "m \<in> set (finditer_from st en (Suc pos) cs)"
        by (simp add: finditer_from.simps(2))
      from shift [OF "2.IH"(1) [OF True None m]] show ?thesis .
    next
      case (Some k)
      let ?n = "length st + k + length en"
      let ?m0 = "\<lparr>m_start = pos, g_start = pos + length st, g_end = pos + length st + k,
               m_end = pos + length st + k + length en\<rparr>"
      from Some have ke: "lit_match en (drop k (drop (length st) ?s))"
        and kl: "\<forall>j<k. \<not> lit_match en (drop j (drop (length st) ?s))"
        and kk: "k \<le> length (drop (length st) ?s)"
        using lazy_until_Some [of en "drop (length st) ?s" k] by blast+
      from lit_match_length [OF ke] lit_match_length [OF True] kk
      have len: "?n \<le> length ?s" by (simp only: length_drop)
      from True Some "2.prems"
      have "m = ?m0 \<or> m \<in> set (finditer_from st en (pos + max 1 ?n) (drop (max 1 ?n) ?s))"
        by (simp add: finditer_from.simps(2))
      then show ?thesis
      proof
        assume m: "m = ?m0"
        from True ke kl len show ?thesis unfolding m match_at_def
          by (intro exI [of _ 0] exI [of _ k]) (simp add: add.commute)
      next
        assume m: "m \<in> set (finditer_from st en (pos + max 1 ?n) (drop (max 1 ?n) ?s))"
        have le: "max 1 ?n \<le> length ?s" using len by simp
        from match_at_shift [OF "2.IH"(2) [OF True Some m] le] show ?thesis .
      qed
    qed
  qed
qed

section \<open>Occurrences of a literal\<close>

lemma set_occurrences_from:
  "set (occurrences_from lit pos s) = {pos + i |i. i \<le> length s \<and> lit_match lit (drop i s)}"
proof (induction s arbitrary: pos)
  case Nil
  show ?case by auto
next
  case (Cons c cs)
  have "{pos + i |i. i \<le> length (c # cs) \<and> lit_match lit (drop i (c # cs))} =
        (if lit_match lit (c # cs) then {pos} else {}) \<union>
        {Suc pos + i |i. i \<le> length cs \<and> lit_match lit (drop i cs)}" (is "?L = ?R")
  proof (intro equalityI subsetI)
    fix x assume "x \<in> ?L"
    then obtain i where i: "x = pos + i" "i \<le> length (c # cs)" "lit_match lit (drop i (c # cs))" by blast
    show "x \<in> ?R"
    proof (cases i)
      case 0 with i show ?thesis by simp
    next
      case (Suc j) with i show ?thesis by auto
    qed
  next
    fix x assume "x \<in> ?R"
    then consider "lit_match lit (c # cs)" "x = pos"
      | i where "x = Suc pos + i" "i \<le> length cs" "lit_match lit (drop i cs)"
      by (auto split: if_splits)
    then show "x \<in> ?L"
    proof cases
      case 1 then show ?thesis by (auto intro!: exI [of _ 0])
    next
      case 2 then show ?thesis by (auto intro!: exI [of _ "Suc i"])
    qed
  qed
  with Cons [of "Suc pos"] show ?case by auto
qed

lemma occurrences_iff:
  "lit \<noteq> [] \<Longrightarrow> i \<in> set (occurrences lit s) \<longleftrightarrow> lit_match lit (drop i s)"
proof -
  assume l: "lit \<noteq> []"
  have "lit_match lit (drop i s) \<Longrightarrow> i \<le> length s"
    using lit_match_drop_beyond [OF l, of s i] by (cases "i \<le> length s") auto
  then show ?thesis by (auto simp: occurrences_def set_occurrences_from)
qed

lemma occurrences_Nil_iff:
  "lit \<noteq> [] \<Longrightarrow> occurrences lit s = [] \<longleftrightarrow> (\<forall>i. \<not> lit_match lit (drop i s))"
  using occurrences_iff [of lit _ s] by (metis empty_iff empty_set last_in_set)

lemma occurrences_single_iff:
  "lit \<noteq> [] \<Longrightarrow> set (occurrences lit s) = {a} \<longleftrightarrow>
     lit_match lit (drop a s) \<and> (\<forall>i. lit_match lit (drop i s) \<longrightarrow> i = a)"
  using occurrences_iff [of lit _ s] by blast

section \<open>The two loops\<close>

lemma match_loop_keep:
  "strip (group1 s m) \<noteq> [] \<Longrightarrow>
   match_loop clk st en s (m # ms) (bs, n) =
     match_loop clk st en s ms (bs @ [new_block clk n st en s m], n + 2)"
  by (auto simp: new_block_def Let_def strip_def)

lemma match_loop_drop:
  "strip (group1 s m) = [] \<Longrightarrow>
   match_loop clk st en s (m # ms) (bs, n) = match_loop clk st en s ms (bs, n)"
  by (auto simp: Let_def)

lemma match_loop_all_blank:
  "\<forall>m\<in>set ms. strip (group1 s m) = [] \<Longrightarrow> match_loop clk st en s ms acc = acc"
proof (induction ms)
  case Nil show ?case by simp
next
  case (Cons m ms)
  then show ?case by (cases acc) (simp add: match_loop_drop del: match_loop.simps)
qed

lemma tag_loop_all_blank:
  "\<forall>(st, en)\<in>set tags. \<forall>m\<in>set (finditer st en s). strip (group1 s m) = [] \<Longrightarrow>
   tag_loop clk s tags acc = acc"
proof (induction tags)
  case Nil show ?case by simp
next
  case (Cons t tags)
  obtain st en where t: "t = (st, en)" by (cases t)
  from Cons.prems have "\<forall>m\<in>set (finditer st en s). strip (group1 s m) = []" by (simp add: t)
  from match_loop_all_blank [OF this] Cons show ?case by (simp add: t)
qed

lemma tag_loop_append:
  "tag_loop clk s (xs @ ys) acc = tag_loop clk s ys (tag_loop clk s xs acc)"
proof (induction xs arbitrary: acc)
  case Nil show ?case by simp
next
  case (Cons x xs)
  obtain st en where x: "x = (st, en)" by (cases x)
  show ?case using Cons [of "match_loop clk st en s (finditer st en s) acc"] by (simp add: x)
qed

text \<open>Where a block of the result comes from.\<close>

lemma match_loop_origin:
  "b \<in> set (fst (match_loop clk st en s ms acc)) \<Longrightarrow>
   b \<in> set (fst acc) \<or>
   (\<exists>m\<in>set ms. \<exists>t. strip (group1 s m) \<noteq> [] \<and> b = new_block clk t st en s m)"
proof (induction ms arbitrary: acc)
  case Nil then show ?case by simp
next
  case (Cons m ms)
  obtain bs n where acc: "acc = (bs, n)" by (cases acc)
  show ?case
  proof (cases "strip (group1 s m) = []")
    case True
    with Cons.prems have "b \<in> set (fst (match_loop clk st en s ms acc))"
      by (simp add: acc match_loop_drop del: match_loop.simps)
    from Cons.IH [OF this] show ?thesis by auto
  next
    case False
    with Cons.prems have "b \<in> set (fst (match_loop clk st en s ms (bs @ [new_block clk n st en s m], n + 2)))"
      by (simp add: acc match_loop_keep del: match_loop.simps)
    from Cons.IH [OF this] False show ?thesis by (auto simp: acc)
  qed
qed

lemma tag_loop_origin:
  "b \<in> set (fst (tag_loop clk s tags acc)) \<Longrightarrow>
   b \<in> set (fst acc) \<or>
   (\<exists>(st, en)\<in>set tags. \<exists>m\<in>set (finditer st en s). \<exists>t.
      strip (group1 s m) \<noteq> [] \<and> b = new_block clk t st en s m)"
proof (induction tags arbitrary: acc)
  case Nil then show ?case by simp
next
  case (Cons t tags)
  obtain st en where t: "t = (st, en)" by (cases t)
  from Cons.prems have "b \<in> set (fst (tag_loop clk s tags (match_loop clk st en s (finditer st en s) acc)))"
    by (simp add: t)
  from Cons.IH [OF this] match_loop_origin [of b clk st en s "finditer st en s" acc]
  show ?case by (auto simp: t)
qed

lemma match_loop_mono:
  "set (fst acc) \<subseteq> set (fst (match_loop clk st en s ms acc))"
proof (induction ms arbitrary: acc)
  case Nil show ?case by simp
next
  case (Cons m ms)
  obtain bs n where acc: "acc = (bs, n)" by (cases acc)
  show ?case
  proof (cases "strip (group1 s m) = []")
    case True
    with Cons.IH [of acc] show ?thesis by (simp add: acc match_loop_drop del: match_loop.simps)
  next
    case False
    with Cons.IH [of "(bs @ [new_block clk n st en s m], n + 2)"] show ?thesis
      by (simp add: acc match_loop_keep del: match_loop.simps)
  qed
qed

lemma tag_loop_mono:
  "set (fst acc) \<subseteq> set (fst (tag_loop clk s tags acc))"
proof (induction tags arbitrary: acc)
  case Nil show ?case by simp
next
  case (Cons t tags)
  obtain st en where t: "t = (st, en)" by (cases t)
  from Cons.IH [of "match_loop clk st en s (finditer st en s) acc"] match_loop_mono [of acc clk st en s]
  show ?case by (auto simp: t)
qed

lemma match_loop_complete:
  "m \<in> set ms \<Longrightarrow> strip (group1 s m) \<noteq> [] \<Longrightarrow>
   \<exists>t. new_block clk t st en s m \<in> set (fst (match_loop clk st en s ms acc))"
proof (induction ms arbitrary: acc)
  case Nil then show ?case by simp
next
  case (Cons x ms)
  obtain bs n where acc: "acc = (bs, n)" by (cases acc)
  show ?case
  proof (cases "x = m")
    case True
    have "new_block clk n st en s m \<in> set (fst (bs @ [new_block clk n st en s m], n + 2))" by simp
    with match_loop_mono [of "(bs @ [new_block clk n st en s m], n + 2)" clk st en s ms]
    have "new_block clk n st en s m \<in> set (fst (match_loop clk st en s ms (bs @ [new_block clk n st en s m], n + 2)))"
      by blast
    with Cons.prems(2) True show ?thesis
      by (auto simp add: acc match_loop_keep simp del: match_loop.simps)
  next
    case False
    with Cons.prems have m: "m \<in> set ms" by simp
    show ?thesis
    proof (cases "strip (group1 s x) = []")
      case True
      with Cons.IH [OF m Cons.prems(2), of acc] show ?thesis
        by (simp add: acc match_loop_drop del: match_loop.simps)
    next
      case False
      with Cons.IH [OF m Cons.prems(2), of "(bs @ [new_block clk n st en s x], n + 2)"] show ?thesis
        by (simp add: acc match_loop_keep del: match_loop.simps)
    qed
  qed
qed

lemma tag_loop_complete:
  "(st, en) \<in> set tags \<Longrightarrow> m \<in> set (finditer st en s) \<Longrightarrow> strip (group1 s m) \<noteq> [] \<Longrightarrow>
   \<exists>t. new_block clk t st en s m \<in> set (fst (tag_loop clk s tags acc))"
proof (induction tags arbitrary: acc)
  case Nil then show ?case by simp
next
  case (Cons x tags)
  obtain st' en' where x: "x = (st', en')" by (cases x)
  show ?case
  proof (cases "x = (st, en)")
    case True
    from match_loop_complete [OF Cons.prems(2,3), of clk st en acc] obtain t where
      "new_block clk t st en s m \<in> set (fst (match_loop clk st en s (finditer st en s) acc))" by blast
    with tag_loop_mono [of "match_loop clk st en s (finditer st en s) acc" clk s tags] True
    show ?thesis by auto
  next
    case False
    with Cons.prems have "(st, en) \<in> set tags" by simp
    from Cons.IH [OF this Cons.prems(2,3)] show ?thesis by (simp add: x)
  qed
qed

section \<open>Deleting the occurrences of a string\<close>

lemma replace_del_at: "old \<noteq> [] \<Longrightarrow> replace_del old (old @ r) = replace_del old r"
  by (cases old) auto

lemma replace_del_none:
  "\<forall>i. \<not> prefix old (drop i s) \<Longrightarrow> replace_del old s = s"
proof (induction s)
  case Nil show ?case by simp
next
  case (Cons c cs)
  from Cons.prems [rule_format, of 0] have 0: "\<not> prefix old (c # cs)" by simp
  have "\<forall>i. \<not> prefix old (drop i cs)"
  proof
    fix i from Cons.prems [rule_format, of "Suc i"] show "\<not> prefix old (drop i cs)" by simp
  qed
  from Cons.IH [OF this] 0 show ?case by simp
qed

lemma replace_del_skip:
  "\<forall>i<length p. \<not> prefix old (drop i (p @ r)) \<Longrightarrow> replace_del old (p @ r) = p @ replace_del old r"
proof (induction p)
  case Nil show ?case by simp
next
  case (Cons c cs)
  from Cons.prems [rule_format, of 0] have 0: "\<not> prefix old (c # cs @ r)" by simp
  have "\<forall>i<length cs. \<not> prefix old (drop i (cs @ r))"
  proof (intro allI impI)
    fix i assume "i < length cs"
    with Cons.prems [rule_format, of "Suc i"] show "\<not> prefix old (drop i (cs @ r))" by simp
  qed
  from Cons.IH [OF this] 0 show ?case by simp
qed

lemma replace_del_once:
  assumes "old \<noteq> []"
    and "\<forall>i. prefix old (drop i (p @ old @ q)) \<longrightarrow> i = length p"
  shows "replace_del old (p @ old @ q) = p @ q"
proof -
  have 1: "\<forall>i<length p. \<not> prefix old (drop i (p @ old @ q))" using assms(2) by blast
  have 2: "\<forall>i. \<not> prefix old (drop i q)"
  proof
    fix i
    have "drop (length p + length old + i) (p @ old @ q) = drop i q" by simp
    moreover have "length p + length old + i \<noteq> length p" using assms(1) by (cases old) auto
    ultimately show "\<not> prefix old (drop i q)" using assms(2) by metis
  qed
  show ?thesis
    by (simp add: replace_del_skip [OF 1] replace_del_at [OF assms(1)] replace_del_none [OF 2])
qed

section \<open>Slices\<close>

lemma slice_middle: "slice (p @ x @ q) (length p) (length p + length x) = x"
  by (simp add: slice_def)

lemma slice_middle2:
  "slice (p @ a @ x @ b @ q) (length p + length a) (length p + length a + length x) = x"
  using slice_middle [of "p @ a" x "b @ q"] by simp

section \<open>The marker table\<close>

lemma tags_nonempty: "\<forall>(st, en)\<in>set DEFAULT_REASONING_TAGS. st \<noteq> [] \<and> en \<noteq> []"
  by (simp add: DEFAULT_REASONING_TAGS_def ascii_def)

lemma tags_distinct: "distinct (map fst DEFAULT_REASONING_TAGS)"
  by (simp add: DEFAULT_REASONING_TAGS_def ascii_def)

lemma tag_loop_single:
  assumes pair: "(st, en) \<in> set tags"
    and others: "\<forall>(st', en')\<in>set tags. (st', en') \<noteq> (st, en) \<longrightarrow> finditer st' en' s = []"
    and dist: "distinct tags"
    and one: "finditer st en s = [m]"
    and nb: "strip (group1 s m) \<noteq> []"
  shows "tag_loop clk s tags (bs, n) = (bs @ [new_block clk n st en s m], n + 2)"
proof -
  from split_list [OF pair] obtain xs ys where t: "tags = xs @ (st, en) # ys" by blast
  from dist have "(st, en) \<notin> set xs" "(st, en) \<notin> set ys" by (auto simp: t)
  with others have "\<forall>(st', en')\<in>set xs. \<forall>m\<in>set (finditer st' en' s). strip (group1 s m) = []"
    "\<forall>(st', en')\<in>set ys. \<forall>m\<in>set (finditer st' en' s). strip (group1 s m) = []"
    by (fastforce simp: t)+
  from tag_loop_all_blank [OF this(1)] tag_loop_all_blank [OF this(2)]
  show ?thesis
    by (simp add: t tag_loop_append one match_loop_keep [OF nb] del: match_loop.simps(2))
qed

section \<open>Matches and the text around them\<close>

lemma case_variant_match: "case_variant lit x \<Longrightarrow> lit_match lit (x @ r)"
  by (simp add: lit_match_iff case_variant_def list_all2_lengthD)

lemma match_case_variant:
  "lit_match lit (x @ r) \<Longrightarrow> length x = length lit \<Longrightarrow> case_variant lit x"
  by (simp add: lit_match_iff case_variant_def)

lemma split_five:
  assumes "a + l1 + k + l2 \<le> length s"
  shows "\<exists>p x c y q. s = p @ x @ c @ y @ q \<and> length p = a \<and> length x = l1 \<and> length c = k \<and> length y = l2"
proof (intro exI conjI)
  show "s = take a s @ take l1 (drop a s) @ take k (drop (a + l1) s) @ take l2 (drop (a + l1 + k) s)
            @ drop (a + l1 + k + l2) s"
    by (metis add.commute append_take_drop_id drop_drop)
  show "length (take a s) = a" "length (take l1 (drop a s)) = l1"
    "length (take k (drop (a + l1) s)) = k" "length (take l2 (drop (a + l1 + k) s)) = l2"
    using assms by auto
qed

lemma match_at_split:
  assumes "match_at st en 0 s m"
  shows "\<exists>p x c y q. s = p @ x @ c @ y @ q \<and> case_variant st x \<and> case_variant en y \<and>
           group0 s m = x @ c @ y \<and> group1 s m = c \<and>
           (\<forall>j<length c. \<not> lit_match en (drop j (c @ y @ q)))"
proof -
  from assms obtain a k where m: "m = \<lparr>m_start = a, g_start = a + length st,
                  g_end = a + length st + k, m_end = a + length st + k + length en\<rparr>"
    and len: "a + length st + k + length en \<le> length s"
    and ms: "lit_match st (drop a s)" and me: "lit_match en (drop (a + length st + k) s)"
    and lz: "\<forall>j<k. \<not> lit_match en (drop (a + length st + j) s)"
    unfolding match_at_def by auto
  from split_five [OF len] obtain p x c y q where s: "s = p @ x @ c @ y @ q"
    and l: "length p = a" "length x = length st" "length c = k" "length y = length en" by blast
  have d1: "drop a s = x @ c @ y @ q" using l by (simp add: s)
  have d2: "drop (a + length st + k) s = y @ q"
    using l drop_append [of "a + length st + k" "p @ x @ c" "y @ q"] by (simp add: s)
  have v1: "case_variant st x" using ms l unfolding d1 by (intro match_case_variant) auto
  have v2: "case_variant en y" using me l unfolding d2 by (intro match_case_variant) auto
  have g0: "group0 s m = x @ c @ y"
    using slice_middle [of p "x @ c @ y" q] l by (simp add: group0_def m s add.assoc)
  have g1: "group1 s m = c"
    using slice_middle2 [of p x c y q] l by (simp add: group1_def m s)
  have "\<forall>j<length c. \<not> lit_match en (drop j (c @ y @ q))"
  proof (intro allI impI)
    fix j assume "j < length c"
    with lz l have "\<not> lit_match en (drop (a + length st + j) s)" by simp
    moreover have "drop (a + length st + j) s = drop j (c @ y @ q)"
      using l drop_append [of "length (p @ x) + j" "p @ x" "c @ y @ q"] by (simp add: s)
    ultimately show "\<not> lit_match en (drop j (c @ y @ q))" by simp
  qed
  with s v1 v2 g0 g1 show ?thesis by blast
qed

lemma finditer_first:
  assumes st: "st \<noteq> []"
    and before: "\<forall>i<a. \<not> lit_match st (drop i s)"
    and at: "lit_match st (drop a s)"
    and en: "lazy_until en (drop (a + length st) s) = Some k"
  shows "\<lparr>m_start = a, g_start = a + length st, g_end = a + length st + k,
          m_end = a + length st + k + length en\<rparr> \<in> set (finditer st en s)"
proof -
  have a: "a < length s" using at st lit_match_drop_beyond [of st s a] by (cases "a < length s") auto
  then have 1: "finditer st en s = finditer_from st en a (drop a s)"
    using finditer_from_skip [OF before, of en 0] by (simp add: finditer_def)
  obtain c cs where d: "drop a s = c # cs" using a by (cases "drop a s") auto
  have en': "lazy_until en (drop (length st) (c # cs)) = Some k"
    using en by (simp add: d [symmetric] add.commute)
  show ?thesis unfolding 1 d using at en' unfolding d
    by (subst finditer_from.simps(2)) simp
qed

lemma lazy_until_content:
  assumes "case_variant en y" and "\<forall>i\<in>set (occurrences en (c @ y)). length c \<le> i" and "en \<noteq> []"
  shows "lazy_until en (c @ y @ q) = Some (length c)"
proof (subst lazy_until_Some, intro conjI allI impI)
  show "length c \<le> length (c @ y @ q)" by simp
  show "lit_match en (drop (length c) (c @ y @ q))" using assms(1) by (simp add: case_variant_match)
  fix j assume j: "j < length c"
  show "\<not> lit_match en (drop j (c @ y @ q))"
  proof
    assume "lit_match en (drop j (c @ y @ q))"
    then have "lit_match en (drop j (c @ y) @ q)" using j by simp
    moreover have "length en \<le> length (drop j (c @ y))"
      using j assms(1) by (simp add: case_variant_def list_all2_lengthD)
    ultimately have "lit_match en (drop j (c @ y))" by (simp only: lit_match_append_left)
    then have "j \<in> set (occurrences en (c @ y))" by (simp add: occurrences_iff [OF assms(3)])
    with assms(2) j show False by fastforce
  qed
qed

section \<open>White space and the literals\<close>

lemma isspace_cases:
  "isspace c \<Longrightarrow> c \<le> 32 \<or> c = 133 \<or> c = 160 \<or> c = 5760 \<or> (8192 \<le> c \<and> c \<le> 8287) \<or> c = 12288"
  unfolding isspace_def by linarith

lemma tolower_space: "isspace c \<Longrightarrow> unicode_tolower c = c"
  using isspace_cases [of c] unfolding unicode_tolower_def by (simp, linarith)

lemma isspace_not_special: "isspace c \<Longrightarrow> c \<noteq> 305 \<and> c \<noteq> 383"
  using isspace_cases [of c] by linarith

lemma ignorecase_nospace:
  "\<not> isspace (unicode_tolower p) \<Longrightarrow> ignorecase_eq p c \<Longrightarrow> \<not> isspace c"
  using tolower_space [of c] isspace_not_special [of c]
  by (auto simp: ignorecase_eq_def Let_def)

lemma spaceless_match_nth:
  "spaceless lit \<Longrightarrow> lit_match lit s \<Longrightarrow> j < length lit \<Longrightarrow> \<not> isspace (s ! j)"
  using lit_match_nth [of lit s j] ignorecase_nospace [of "lit ! j" "s ! j"]
  by (simp add: spaceless_def list_all_length)


lemma spaceless_match_at:
  assumes "spaceless lit" "lit_match lit (drop i s)" "j < length lit"
  shows "\<not> isspace (s ! (i + j))"
proof -
  have "i \<le> length s" using lit_match_length [OF assms(2)] assms(3) by (cases "i \<le> length s") auto
  then have "drop i s ! j = s ! (i + j)" by (rule nth_drop)
  with spaceless_match_nth [OF assms] show ?thesis by simp
qed

lemma tags_spaceless: "\<forall>(st, en)\<in>set DEFAULT_REASONING_TAGS. spaceless st \<and> spaceless en"
  by (simp add: DEFAULT_REASONING_TAGS_def ascii_def spaceless_def unicode_tolower_def isspace_def)

text \<open>A literal that matches no white space cannot match across a run of white space.\<close>

lemma no_straddle:
  assumes sl: "spaceless lit" and ne: "lit \<noteq> []"
    and w: "list_all isspace w" and wn: "w \<noteq> []" and m: "lit_match lit (drop i (x @ w @ y))"
  shows "(i + length lit \<le> length x \<and> lit_match lit (drop i x)) \<or>
         (length x + length w \<le> i \<and> lit_match lit (drop (i - length x - length w) y))"
proof -
  let ?s = "x @ w @ y"
  from lit_match_length [OF m] have len: "i + length lit \<le> length ?s"
    using ne by (cases "i \<le> length ?s") auto
  have ns: "\<not> isspace (?s ! (i + j))" if "j < length lit" for j
    using that by (rule spaceless_match_at [OF sl m])
  have sp: "isspace (?s ! k)" if "length x \<le> k" "k < length x + length w" for k
  proof -
    from that have lt: "k - length x < length w" by linarith
    with w have "isspace (w ! (k - length x))" by (simp add: list_all_length)
    with that lt show ?thesis by (simp add: nth_append)
  qed
  show ?thesis
  proof (cases "i + length lit \<le> length x")
    case True
    then have "drop i ?s = drop i x @ w @ y" by simp
    moreover have "length lit \<le> length (drop i x)" using True by simp
    ultimately have "lit_match lit (drop i x)" using m by (simp only: lit_match_append_left)
    with True show ?thesis by simp
  next
    case False
    have "length x + length w \<le> i"
    proof (rule ccontr)
      assume "\<not> length x + length w \<le> i"
      then have lt: "i < length x + length w" by simp
      show False
      proof (cases "length x \<le> i")
        case True
        from sp [OF True lt] ns [of 0] ne show False by simp
      next
        case F: False
        then have "length x - i < length lit" using False by simp
        from ns [OF this] F have "\<not> isspace (?s ! length x)" by simp
        moreover have "length x < length x + length w" using wn by simp
        from sp [OF _ this] have "isspace (?s ! length x)" by simp
        ultimately show False by simp
      qed
    qed
    moreover from this have "drop i ?s = drop (i - length x - length w) y" by simp
    ultimately show ?thesis using m by simp
  qed
qed

lemma no_match_in_space:
  "spaceless lit \<Longrightarrow> lit \<noteq> [] \<Longrightarrow> list_all isspace w \<Longrightarrow> j < length w \<Longrightarrow>
   \<not> lit_match lit (drop j (w @ r))"
proof
  assume a: "spaceless lit" "lit \<noteq> []" "list_all isspace w" "j < length w"
    and m: "lit_match lit (drop j (w @ r))"
  from spaceless_match_at [OF a(1) m, of 0] a(2) have "\<not> isspace ((w @ r) ! j)" by simp
  with a(3,4) show False by (simp add: nth_append list_all_length)
qed

lemma lazy_until_blank:
  assumes "spaceless en" "en \<noteq> []" "list_all isspace w" "lit_match en r"
  shows "lazy_until en (w @ r) = Some (length w)"
  using assms no_match_in_space [OF assms(1,2,3), of _ r]
  by (subst lazy_until_Some) simp

text \<open>How the literals of the table lie in each other.\<close>

lemma tags_in_each_other:
  "\<forall>(st, en)\<in>set DEFAULT_REASONING_TAGS. \<forall>(st', en')\<in>set DEFAULT_REASONING_TAGS.
     set (occurrences st' (st @ en)) \<subseteq> {0} \<and>
     (lit_match st' (st @ en) \<longrightarrow> length st' = length st \<and> lit_match en' en)"
  by (simp add: occ_eval)

lemma strip_blank: "list_all isspace w \<Longrightarrow> strip w = []"
proof -
  assume "list_all isspace w"
  then have "dropWhile isspace w = []" by (simp add: list_all_iff)
  then have "rev (dropWhile isspace (rev (dropWhile isspace w))) = rev (dropWhile isspace (rev []))"
    by (rule arg_cong)
  then show ?thesis unfolding strip_def by simp
qed

lemma blank_pair_matches:
  assumes pair: "(st, en) \<in> set DEFAULT_REASONING_TAGS"
    and pair': "(st', en') \<in> set DEFAULT_REASONING_TAGS"
    and w: "list_all isspace w"
  shows "\<forall>m\<in>set (finditer st' en' (st @ w @ en)). strip (group1 (st @ w @ en) m) = []"
proof -
  let ?s = "st @ w @ en"
  from pair pair' tags_nonempty have ne: "st \<noteq> []" "st' \<noteq> []" "en' \<noteq> []" by auto
  from pair' tags_spaceless have sl: "spaceless st'" "spaceless en'" by auto
  from pair pair' tags_in_each_other
  have t1: "set (occurrences st' (st @ en)) \<subseteq> {0}"
    and t2: "lit_match st' (st @ en) \<longrightarrow> length st' = length st \<and> lit_match en' en"
    by fastforce+
  have only: "i = 0 \<and> lit_match st' (st @ en)" if m: "lit_match st' (drop i ?s)" for i
  proof (cases "w = []")
    case True
    with m have "lit_match st' (drop i (st @ en))" by simp
    then have "i \<in> set (occurrences st' (st @ en))" by (simp add: occurrences_iff [OF ne(2)])
    with t1 have "i = 0" by blast
    with m True show ?thesis by simp
  next
    case False
    from no_straddle [OF sl(1) ne(2) w False m]
    show ?thesis
    proof
      assume a: "i + length st' \<le> length st \<and> lit_match st' (drop i st)"
      then have "lit_match st' (drop i st @ en)" by (simp add: lit_match_appendI)
      with a have m': "lit_match st' (drop i (st @ en))" by simp
      then have "i \<in> set (occurrences st' (st @ en))" by (simp add: occurrences_iff [OF ne(2)])
      with t1 have "i = 0" by blast
      with m' show ?thesis by simp
    next
      assume a: "length st + length w \<le> i \<and> lit_match st' (drop (i - length st - length w) en)"
      define j where "j = i - length st - length w"
      have "drop (length st + j) (st @ en) = drop j en" by simp
      with a have "lit_match st' (drop (length st + j) (st @ en))" unfolding j_def by simp
      then have "length st + j \<in> set (occurrences st' (st @ en))"
        using occurrences_iff [OF ne(2), of "length st + j" "st @ en"] by blast
      with t1 have "length st + j = 0" by blast
      with ne(1) show ?thesis by simp
    qed
  qed
  show ?thesis
  proof (cases "lit_match st' ?s")
    case False
    then have "\<forall>i. \<not> lit_match st' (drop i ?s)" using only by (metis drop0)
    from finditer_from_no_start [OF ne(2) this] show ?thesis by (simp add: finditer_def)
  next
    case True
    with only [of 0] t2 have l: "length st' = length st" and e: "lit_match en' en" by simp_all
    have at: "lit_match st' (drop 0 ?s)" using True by simp
    have uniq: "\<forall>i. lit_match st' (drop i ?s) \<longrightarrow> i = 0" using only by blast
    have "lazy_until en' (w @ en) = Some (length w)"
      by (rule lazy_until_blank [OF sl(2) ne(3) w e])
    then have lz: "lazy_until en' (drop (0 + length st') ?s) = Some (length w)" by (simp add: l)
    from finditer_from_unique [OF ne(2) at uniq lz, of 0]
    have f: "finditer st' en' ?s = [\<lparr>m_start = 0, g_start = length st, g_end = length st + length w,
             m_end = length st + length w + length en'\<rparr>]"
      by (simp add: finditer_def l)
    have "group1 ?s \<lparr>m_start = 0, g_start = length st, g_end = length st + length w,
             m_end = length st + length w + length en'\<rparr> = w"
      using slice_middle [of st w en] by (simp add: group1_def)
    then show ?thesis by (simp add: f strip_blank [OF w])
  qed
qed

section \<open>Collapsing blank lines\<close>





section \<open>Stripping, as a part of the text\<close>





section \<open>Texts without a marker pair\<close>






section \<open>What the normalisation cannot create\<close>

text \<open>Conversely, the collapsing makes no match of a literal without white space.\<close>

lemma collapse_head:
  "c \<noteq> NL \<or> blank_run_end cs = None \<Longrightarrow>
   collapse_blank_lines (c # cs) = c # collapse_blank_lines cs"
  by auto







section \<open>Normalising twice\<close>






















section \<open>Two spans\<close>

lemma finditer_none:
  assumes "(st, en) \<in> set DEFAULT_REASONING_TAGS" "occurrences st s = []"
  shows "finditer st en s = []"
proof -
  from assms(1) tags_nonempty have st: "st \<noteq> []" by auto
  from assms(2) have "\<forall>i. \<not> lit_match st (drop i s)" using occurrences_Nil_iff [OF st, of s] by blast
  from finditer_from_no_start [OF st this] show ?thesis by (simp add: finditer_def)
qed

lemma finditer_one:
  assumes pair: "(st, en) \<in> set DEFAULT_REASONING_TAGS"
    and s: "s = p @ st @ c @ en @ q"
    and occ: "occurrences st s = [length p]"
    and lazy: "occurrences en (c @ en) = [length c]"
  shows "finditer st en s =
           [\<lparr>m_start = length p, g_start = length p + length st,
             g_end = length p + length st + length c,
             m_end = length p + length st + length c + length en\<rparr>]"
proof -
  from pair tags_nonempty have st: "st \<noteq> []" and en: "en \<noteq> []" by auto
  from occ have "set (occurrences st s) = {length p}" by simp
  then have at: "lit_match st (drop (length p) s)"
    and uniq: "\<forall>i. lit_match st (drop i s) \<longrightarrow> i = length p"
    using occurrences_single_iff [OF st, of s "length p"] by blast+
  have v: "case_variant en en" by (simp add: case_variant_def list_all2_same ignorecase_eq_refl)
  from lazy have "\<forall>i\<in>set (occurrences en (c @ en)). length c \<le> i" by simp
  from lazy_until_content [OF v this en, of q]
  have "lazy_until en (drop (length p + length st) s) = Some (length c)"
    using drop_append [of "length p + length st" "p @ st" "c @ en @ q"] by (simp add: s)
  from finditer_from_unique [OF st at uniq this, of 0] show ?thesis by (simp add: finditer_def)
qed

lemma tag_loop_two:
  assumes others: "\<forall>(st, en)\<in>set (xs @ ys @ zs). finditer st en s = []"
    and a: "finditer sa ea s = [ma]" "strip (group1 s ma) \<noteq> []"
    and b: "finditer sb eb s = [mb]" "strip (group1 s mb) \<noteq> []"
  shows "tag_loop clk s (xs @ (sa, ea) # ys @ (sb, eb) # zs) (bs, n) =
           (bs @ [new_block clk n sa ea s ma, new_block clk (n + 2) sb eb s mb], n + 4)"
proof -
  have blank: "tag_loop clk s ts acc = acc" if "set ts \<subseteq> set (xs @ ys @ zs)" for ts acc
  proof (rule tag_loop_all_blank, intro ballI)
    fix x assume "x \<in> set ts"
    with that others have "case x of (st, en) \<Rightarrow> finditer st en s = []" by blast
    then show "case x of (st, en) \<Rightarrow> \<forall>m\<in>set (finditer st en s). strip (group1 s m) = []"
      by (cases x) simp
  qed
  have x: "tag_loop clk s xs acc = acc" and y: "tag_loop clk s ys acc = acc"
    and z: "tag_loop clk s zs acc = acc" for acc
    by (rule blank, auto)+
  show ?thesis
    by (simp add: tag_loop_append x y z a(1) b(1) match_loop_keep [OF a(2)] match_loop_keep [OF b(2)]
        del: match_loop.simps(2))
qed

lemma tags_split:
  "DEFAULT_REASONING_TAGS =
     [(ascii ''<think>'', ascii ''</think>'')] @
     (ascii ''<thinking>'', ascii ''</thinking>'') #
     [(ascii ''<reason>'', ascii ''</reason>'')] @
     (ascii ''<reasoning>'', ascii ''</reasoning>'') #
     [(ascii ''<thought>'', ascii ''</thought>''),
      (ascii ''<Thought>'', ascii ''</Thought>''),
      (ascii ''<|begin_of_thought|>'', ascii ''<|end_of_thought|>''),
      ([226, 8212] @ ascii ''think'' @ [226, 8211, 183],
       [226, 8212] @ ascii ''/think'' @ [226, 8211, 183])]"
  by (simp add: DEFAULT_REASONING_TAGS_def)

lemma replace_del_span:
  assumes st: "st \<noteq> []" and occ: "occurrences st (p @ (st @ r) @ q) = [length p]"
  shows "replace_del (st @ r) (p @ (st @ r) @ q) = p @ q"
proof -
  from occ have "set (occurrences st (p @ (st @ r) @ q)) = {length p}" by simp
  then have uniq: "\<forall>i. lit_match st (drop i (p @ (st @ r) @ q)) \<longrightarrow> i = length p"
    using occurrences_single_iff [OF st, of "p @ (st @ r) @ q" "length p"] by blast
  have "\<forall>i. prefix (st @ r) (drop i (p @ (st @ r) @ q)) \<longrightarrow> i = length p"
  proof (intro allI impI)
    fix i assume "prefix (st @ r) (drop i (p @ (st @ r) @ q))"
    then have "lit_match (st @ r) (drop i (p @ (st @ r) @ q))" by (rule lit_match_prefix)
    then have "lit_match st (drop i (p @ (st @ r) @ q))" by (rule lit_match_append_lit)
    with uniq show "i = length p" by blast
  qed
  moreover have "st @ r \<noteq> []" using st by simp
  ultimately show ?thesis by (rule replace_del_once [rotated])
qed

lemma new_block_span:
  "new_block clk n st en (p @ st @ c @ en @ q)
     \<lparr>m_start = length p, g_start = length p + length st,
      g_end = length p + length st + length c,
      m_end = length p + length st + length c + length en\<rparr> = span_block clk n st en c"
proof -
  have "slice (p @ st @ c @ en @ q) (length p) (length p + length st + length c + length en) = st @ c @ en"
    using slice_middle [of p "st @ c @ en" q] by (simp add: add.assoc)
  moreover have "slice (p @ st @ c @ en @ q) (length p + length st) (length p + length st + length c) = c"
    by (rule slice_middle2)
  ultimately show ?thesis by (simp add: new_block_def span_block_def group0_def group1_def)
qed

lemma other_tags:
  "\<forall>x\<in>set ([(ascii ''<think>'', ascii ''</think>'')] @ [(ascii ''<reason>'', ascii ''</reason>'')] @
     [(ascii ''<thought>'', ascii ''</thought>''),
      (ascii ''<Thought>'', ascii ''</Thought>''),
      (ascii ''<|begin_of_thought|>'', ascii ''<|end_of_thought|>''),
      ([226, 8212] @ ascii ''think'' @ [226, 8211, 183],
       [226, 8212] @ ascii ''/think'' @ [226, 8211, 183])]).
     x \<in> set DEFAULT_REASONING_TAGS \<and> fst x \<noteq> ascii ''<thinking>'' \<and> fst x \<noteq> ascii ''<reasoning>''"
  by (simp add: DEFAULT_REASONING_TAGS_def ascii_def)

lemma two_spans:
  assumes sT: "s = pT @ (ascii ''<thinking>'' @ c1 @ ascii ''</thinking>'') @ qT"
    and sR: "s = pR @ (ascii ''<reasoning>'' @ c2 @ ascii ''</reasoning>'') @ qR"
    and sU: "pT @ qT = u @ (ascii ''<reasoning>'' @ c2 @ ascii ''</reasoning>'') @ v"
    and occ: "\<forall>(st, en)\<in>set DEFAULT_REASONING_TAGS.
                occurrences st s =
                  (if st = ascii ''<thinking>'' then [length pT]
                   else if st = ascii ''<reasoning>'' then [length pR] else [])"
    and occU: "occurrences (ascii ''<reasoning>'') (pT @ qT) = [length u]"
    and lz1: "occurrences (ascii ''</thinking>'') (c1 @ ascii ''</thinking>'') = [length c1]"
    and lz2: "occurrences (ascii ''</reasoning>'') (c2 @ ascii ''</reasoning>'') = [length c2]"
    and nb1: "strip c1 \<noteq> []" and nb2: "strip c2 \<noteq> []"
  shows "fst (detect_reasoning_tags clk n s) =
           [span_block clk n (ascii ''<thinking>'') (ascii ''</thinking>'') c1,
            span_block clk (n + 2) (ascii ''<reasoning>'') (ascii ''</reasoning>'') c2] \<and>
         main_content (fst (process_content clk n s)) = strip (collapse_blank_lines (u @ v)) \<and>
         generate_html_output (fst (process_content clk n s)) =
           join [NL, NL]
             ([html_block (span_block clk n (ascii ''<thinking>'') (ascii ''</thinking>'') c1),
               html_block (span_block clk (n + 2) (ascii ''<reasoning>'') (ascii ''</reasoning>'') c2)] @
              (if strip (collapse_blank_lines (u @ v)) \<noteq> []
               then [strip (collapse_blank_lines (u @ v))] else []))"
proof -
  let ?to = "ascii ''<thinking>''" and ?tc = "ascii ''</thinking>''"
  let ?ro = "ascii ''<reasoning>''" and ?rc = "ascii ''</reasoning>''"
  let ?bT = "span_block clk n ?to ?tc c1" and ?bR = "span_block clk (n + 2) ?ro ?rc c2"
  have pT: "(?to, ?tc) \<in> set DEFAULT_REASONING_TAGS" and pR: "(?ro, ?rc) \<in> set DEFAULT_REASONING_TAGS"
    by (simp_all add: DEFAULT_REASONING_TAGS_def)
  have ne: "?to \<noteq> ?ro" by (simp add: ascii_def)
  from occ pT have oT: "occurrences ?to s = [length pT]" by fastforce
  from occ pR ne have oR: "occurrences ?ro s = [length pR]" by fastforce
  have sT': "s = pT @ ?to @ c1 @ ?tc @ qT" and sR': "s = pR @ ?ro @ c2 @ ?rc @ qR"
    using sT sR by simp_all
  let ?mT = "\<lparr>m_start = length pT, g_start = length pT + length ?to,
             g_end = length pT + length ?to + length c1,
             m_end = length pT + length ?to + length c1 + length ?tc\<rparr>"
  let ?mR = "\<lparr>m_start = length pR, g_start = length pR + length ?ro,
             g_end = length pR + length ?ro + length c2,
             m_end = length pR + length ?ro + length c2 + length ?rc\<rparr>"
  have fT: "finditer ?to ?tc s = [?mT]" by (rule finditer_one [OF pT sT' oT lz1])
  have fR: "finditer ?ro ?rc s = [?mR]" by (rule finditer_one [OF pR sR' oR lz2])
  have bT: "new_block clk n ?to ?tc s ?mT = ?bT" unfolding sT' by (rule new_block_span)
  have bR: "new_block clk (n + 2) ?ro ?rc s ?mR = ?bR" unfolding sR' by (rule new_block_span)
  have gT: "strip (group1 s ?mT) \<noteq> []"
    using nb1 slice_middle2 [of pT ?to c1 ?tc qT] by (simp add: group1_def sT')
  have gR: "strip (group1 s ?mR) \<noteq> []"
    using nb2 slice_middle2 [of pR ?ro c2 ?rc qR] by (simp add: group1_def sR')
  have others: "\<forall>(st, en)\<in>set ([(ascii ''<think>'', ascii ''</think>'')] @ [(ascii ''<reason>'', ascii ''</reason>'')] @
     [(ascii ''<thought>'', ascii ''</thought>''),
      (ascii ''<Thought>'', ascii ''</Thought>''),
      (ascii ''<|begin_of_thought|>'', ascii ''<|end_of_thought|>''),
      ([226, 8212] @ ascii ''think'' @ [226, 8211, 183],
       [226, 8212] @ ascii ''/think'' @ [226, 8211, 183])]). finditer st en s = []"
  proof (intro ballI)
    fix x assume "x \<in> set ([(ascii ''<think>'', ascii ''</think>'')] @ [(ascii ''<reason>'', ascii ''</reason>'')] @
     [(ascii ''<thought>'', ascii ''</thought>''),
      (ascii ''<Thought>'', ascii ''</Thought>''),
      (ascii ''<|begin_of_thought|>'', ascii ''<|end_of_thought|>''),
      ([226, 8212] @ ascii ''think'' @ [226, 8211, 183],
       [226, 8212] @ ascii ''/think'' @ [226, 8211, 183])])"
    with other_tags have x: "x \<in> set DEFAULT_REASONING_TAGS" "fst x \<noteq> ?to" "fst x \<noteq> ?ro" by blast+
    obtain st en where xe: "x = (st, en)" by (cases x)
    from occ x xe have "occurrences st s = []" by fastforce
    from finditer_none [OF _ this, of en] x(1) xe show "case x of (st, en) \<Rightarrow> finditer st en s = []"
      by simp
  qed
  from tag_loop_two [OF others fT gT fR gR, of clk "[]" n]
  have det: "detect_reasoning_tags clk n s = ([?bT, ?bR], n + 4)"
    unfolding detect_reasoning_tags_def tags_split bT bR by simp
  have to: "?to \<noteq> []" and ro: "?ro \<noteq> []" by (simp_all add: ascii_def)
  have r1: "replace_del (?to @ c1 @ ?tc) s = pT @ qT"
    using replace_del_span [OF to, of pT "c1 @ ?tc" qT] oT unfolding sT' by simp
  have r2: "replace_del (?ro @ c2 @ ?rc) (pT @ qT) = u @ v"
    using replace_del_span [OF ro, of u "c2 @ ?rc" v] occU unfolding sU by simp
  have mc: "fst (process_content clk n s) =
     \<lparr>main_content = strip (collapse_blank_lines (u @ v)), reasoning_blocks = [?bT, ?bR],
      total_reasoning_time = 2\<rparr>"
    by (simp add: process_content_def det r1 r2 span_block_def)
  show ?thesis
    by (simp add: det mc generate_html_output_parts)
qed

lemma reasoning_first_spans:
  "reasoning_first = ascii ''<reasoning>a</reasoning>'' @ (ascii ''<thinking>'' @ ascii ''b'' @ ascii ''</thinking>'') @ []"
  "reasoning_first = [] @ (ascii ''<reasoning>'' @ ascii ''a'' @ ascii ''</reasoning>'') @ ascii ''<thinking>b</thinking>''"
  "ascii ''<reasoning>a</reasoning>'' @ [] = [] @ (ascii ''<reasoning>'' @ ascii ''a'' @ ascii ''</reasoning>'') @ []"
  by (simp_all add: reasoning_first_def ascii_def)

lemma reasoning_first_starts:
  "\<forall>(st, en)\<in>set DEFAULT_REASONING_TAGS.
     occurrences st reasoning_first =
       (if st = ascii ''<thinking>'' then [length (ascii ''<reasoning>a</reasoning>'')]
        else if st = ascii ''<reasoning>'' then [length ([] :: ustr)] else [])"
  by (simp add: reasoning_first_def occ_eval)

lemma reasoning_first_rest:
  "occurrences (ascii ''<reasoning>'') (ascii ''<reasoning>a</reasoning>'' @ []) = [length ([] :: ustr)]"
  "occurrences (ascii ''</thinking>'') (ascii ''b'' @ ascii ''</thinking>'') = [length (ascii ''b'')]"
  "occurrences (ascii ''</reasoning>'') (ascii ''a'' @ ascii ''</reasoning>'') = [length (ascii ''a'')]"
  "strip (ascii ''b'') \<noteq> []" "strip (ascii ''a'') \<noteq> []"
  by (simp_all add: occ_eval strip_def isspace_def)

lemma strip_collapse_Nil: "strip (collapse_blank_lines ([] @ [])) = []"
  by (simp add: strip_def)

lemma html_block_thinking_b:
  "html_block (span_block sample_clock 0 (ascii ''<thinking>'') (ascii ''</thinking>'') (ascii ''b'')) =
   ascii ''<details type=\"reasoning\" done=\"true\" duration=\"1\">'' @ [NL] @
   ascii ''<summary>Thought for 1 second</summary>'' @ [NL] @ ascii ''> b'' @ [NL] @ ascii ''</details>''"
  by (simp add: span_block_def html_block_def splitlines_def format_line_def str_int_def str_nat.simps
      ascii_def is_linebreak_def strip_def isspace_def)

lemma html_block_reasoning_a:
  "html_block (span_block sample_clock (0 + 2) (ascii ''<reasoning>'') (ascii ''</reasoning>'') (ascii ''a'')) =
   ascii ''<details type=\"reasoning\" done=\"true\" duration=\"1\">'' @ [NL] @
   ascii ''<summary>Thought for 1 second</summary>'' @ [NL] @ ascii ''> a'' @ [NL] @ ascii ''</details>''"
  by (simp add: span_block_def html_block_def splitlines_def format_line_def str_int_def str_nat.simps
      ascii_def is_linebreak_def strip_def isspace_def)

section \<open>Removal of named wrapper blocks\<close>

lemma details_open_length: "length details_open = 8"
  by (simp add: details_open_def ascii_def)

lemma details_close_length: "length details_close = 10"
  by (simp add: details_close_def ascii_def)

lemma details_match_unfold:
  "details_match type_name s =
     (if lit_match details_open s then
        (let r1 = drop 8 s; w = length (takeWhile isspace r1)
         in if w = 0 then None
            else
              (let attr = type_attr type_name; r2 = drop w r1
               in if lit_match attr r2 then
                    (let r3 = drop (length attr) r2; a = length (takeWhile (\<lambda>c. c \<noteq> 62) r3)
                     in case drop a r3 of
                          [] \<Rightarrow> None
                        | gt # r4 \<Rightarrow>
                            (case lazy_until details_close r4 of
                               None \<Rightarrow> None
                             | Some k \<Rightarrow> Some (8 + w + length attr + a + 1 + k + 10)))
                  else None))
      else None)"
  by (simp only: details_match_def details_open_def details_close_def type_attr_def)

lemma details_match_no_open: "\<not> lit_match details_open s \<Longrightarrow> details_match type_name s = None"
  by (simp add: details_match_unfold)

lemma takeWhile_run:
  "list_all P a \<Longrightarrow> (r = [] \<or> \<not> P (hd r)) \<Longrightarrow> takeWhile P (a @ r) = a"
  by (cases r) (auto simp: list_all_iff takeWhile_append2 takeWhile_tail)

lemma type_attr_spaceless_head:
  assumes "case_variant (type_attr type_name) x"
  shows "x \<noteq> [] \<and> \<not> isspace (hd x)"
proof -
  obtain r where t: "type_attr type_name = 116 # r" by (simp add: type_attr_def ascii_def)
  with assms obtain c cs where x: "x = c # cs" and ic: "ignorecase_eq 116 c"
    by (cases x) (auto simp: case_variant_def)
  have "\<not> isspace (unicode_tolower 116)" by (simp add: unicode_tolower_def isspace_def)
  from ignorecase_nospace [OF this ic] x show ?thesis by simp
qed

lemma wrapper_match:
  assumes w: "is_wrapper type_name w"
  shows "details_match type_name (wrapper_text w @ rest) = Some (length (wrapper_text w))"
proof -
  from w have o: "case_variant details_open (w_open w)" and g: "w_gap w \<noteq> []" "list_all isspace (w_gap w)"
    and t: "case_variant (type_attr type_name) (w_type w)" and a: "62 \<notin> set (w_attrs w)"
    and c: "case_variant details_close (w_close w)"
    and b: "occurrences details_close (w_body w @ w_close w) = [length (w_body w)]"
    by (simp_all add: is_wrapper_def)
  have lo: "length (w_open w) = 8" using o details_open_length by (simp add: case_variant_def list_all2_lengthD)
  have lt: "length (w_type w) = length (type_attr type_name)"
    using t by (simp add: case_variant_def list_all2_lengthD)
  have lc: "length (w_close w) = 10" using c details_close_length by (simp add: case_variant_def list_all2_lengthD)
  let ?r4 = "w_body w @ w_close w @ rest"
  let ?r3 = "w_attrs w @ 62 # ?r4"
  let ?r2 = "w_type w @ ?r3"
  let ?r1 = "w_gap w @ ?r2"
  have s: "wrapper_text w @ rest = w_open w @ ?r1" by (simp add: wrapper_text_def)
  have m0: "lit_match details_open (w_open w @ ?r1)" by (rule case_variant_match [OF o])
  have d1: "drop 8 (w_open w @ ?r1) = ?r1" using lo by simp
  from type_attr_spaceless_head [OF t] have "?r2 = [] \<or> \<not> isspace (hd ?r2)" by (cases "w_type w") auto
  from takeWhile_run [OF g(2) this] have tw: "takeWhile isspace ?r1 = w_gap w" .
  have d2: "drop (length (w_gap w)) ?r1 = ?r2" by simp
  have m2: "lit_match (type_attr type_name) ?r2" by (rule case_variant_match [OF t])
  have d3: "drop (length (type_attr type_name)) ?r2 = ?r3" using lt by simp
  have "list_all (\<lambda>c. c \<noteq> 62) (w_attrs w)" using a by (auto simp: list_all_iff)
  from takeWhile_run [OF this, of "62 # ?r4"] have ta: "takeWhile (\<lambda>c. c \<noteq> 62) ?r3 = w_attrs w" by simp
  have d4: "drop (length (w_attrs w)) ?r3 = 62 # ?r4" by simp
  have ne: "details_close \<noteq> []" by (simp add: details_close_def ascii_def)
  from b have "\<forall>i\<in>set (occurrences details_close (w_body w @ w_close w)). length (w_body w) \<le> i" by simp
  from lazy_until_content [OF c this ne, of rest]
  have lz: "lazy_until details_close ?r4 = Some (length (w_body w))" .
  have len: "length (wrapper_text w) =
    8 + length (w_gap w) + length (type_attr type_name) + length (w_attrs w) + 1 + length (w_body w) + 10"
    by (simp add: wrapper_text_def lo lt lc)
  show ?thesis
    unfolding s details_match_unfold
    using g(1) by (simp only: m0 d1 tw d2 m2 d3 ta d4 Let_def if_True list.case lz option.case len) simp
qed

lemma lt_only: "ignorecase_eq 60 c \<Longrightarrow> c = 60"
  by (auto simp: ignorecase_eq_def unicode_tolower_def split: if_splits)

lemma gt_only: "ignorecase_eq 62 c \<Longrightarrow> c = 62"
  by (auto simp: ignorecase_eq_def unicode_tolower_def split: if_splits)

lemma open_chars:
  "list_all (\<lambda>p. \<not> ignorecase_eq p 62) details_open"
  "list_all (\<lambda>p. \<not> ignorecase_eq p 60) (tl details_open)"
  by (simp_all add: details_open_def ascii_def ignorecase_eq_def unicode_tolower_def)

lemma open_not_gt: "j < 8 \<Longrightarrow> \<not> ignorecase_eq (details_open ! j) 62"
  using open_chars(1) details_open_length by (simp add: list_all_length)

lemma open_not_lt: "0 < j \<Longrightarrow> j < 8 \<Longrightarrow> \<not> ignorecase_eq (details_open ! j) 60"
proof -
  assume j: "0 < j" "j < 8"
  then have "j - 1 < length (tl details_open)" using details_open_length by simp
  with open_chars(2) have "\<not> ignorecase_eq (tl details_open ! (j - 1)) 60" by (simp add: list_all_length)
  moreover have "tl details_open ! (j - 1) = details_open ! j"
    using j details_open_length by (simp add: nth_tl)
  ultimately show ?thesis by simp
qed

lemma open_ne: "details_open \<noteq> []"
  using details_open_length by auto

lemma wrapper_shape:
  assumes "is_wrapper type_name w"
  shows "8 \<le> length (wrapper_text w)" "wrapper_text w ! 0 = 60"
    "wrapper_text w ! (length (wrapper_text w) - 1) = 62"
proof -
  from assms have o: "case_variant details_open (w_open w)" and c: "case_variant details_close (w_close w)"
    by (simp_all add: is_wrapper_def)
  have lo: "length (w_open w) = 8" using o details_open_length by (simp add: case_variant_def list_all2_lengthD)
  have lc: "length (w_close w) = 10" using c details_close_length by (simp add: case_variant_def list_all2_lengthD)
  show "8 \<le> length (wrapper_text w)" by (simp add: wrapper_text_def lo)
  have "details_open ! 0 = 60" by (simp add: details_open_def ascii_def)
  moreover from o lo have "ignorecase_eq (details_open ! 0) (w_open w ! 0)"
    by (simp add: case_variant_def list_all2_conv_all_nth)
  ultimately have "w_open w ! 0 = 60" using lt_only by simp
  then show "wrapper_text w ! 0 = 60" using lo by (simp add: wrapper_text_def nth_append)
  have "details_close ! 9 = 62" by (simp add: details_close_def ascii_def)
  moreover from c lc have "ignorecase_eq (details_close ! 9) (w_close w ! 9)"
    by (simp add: case_variant_def list_all2_conv_all_nth)
  ultimately have "w_close w ! 9 = 62" using gt_only by simp
  moreover have "wrapper_text w ! (length (wrapper_text w) - 1) = w_close w ! 9"
  proof -
    let ?a = "w_open w @ w_gap w @ w_type w @ w_attrs w @ [62] @ w_body w"
    have "wrapper_text w = ?a @ w_close w" by (simp add: wrapper_text_def)
    then have "wrapper_text w ! (length ?a + 9) = w_close w ! 9" by (simp only: nth_append_length_plus)
    moreover have "length (wrapper_text w) - 1 = length ?a + 9" by (simp add: wrapper_text_def lc)
    ultimately show ?thesis by simp
  qed
  ultimately show "wrapper_text w ! (length (wrapper_text w) - 1) = 62" by simp
qed

lemma occurrences_suffix_Nil:
  assumes "lit \<noteq> []" "occurrences lit (a @ b) = []"
  shows "occurrences lit b = []"
proof -
  have "\<not> lit_match lit (drop i b)" for i
  proof
    assume "lit_match lit (drop i b)"
    then have "lit_match lit (drop (length a + i) (a @ b))" by simp
    then have "length a + i \<in> set (occurrences lit (a @ b))" by (simp only: occurrences_iff [OF assms(1)])
    with assms(2) show False by simp
  qed
  then show ?thesis using occurrences_Nil_iff [OF assms(1), of b] by blast
qed

lemma match_char:
  assumes "lit_match lit (drop i s)" "j < length lit"
  shows "ignorecase_eq (lit ! j) (s ! (i + j))"
proof -
  from lit_match_length [OF assms(1)] assms(2) have "i \<le> length s" by (cases "i \<le> length s") auto
  then have "drop i s ! j = s ! (i + j)" by (rule nth_drop)
  with lit_match_nth [OF assms] show ?thesis by simp
qed

text \<open>
  In a well-formed text the opening literal matches only where a wrapper starts: it cannot
  run into a wrapper from the left, nor out of one to the right.
\<close>

lemma open_only_at_starts:
  assumes "list_all seg_ok segs" "occurrences details_open (acc @ plain_of segs) = []"
    and "lit_match details_open (drop i (acc @ text_of segs))"
  shows "length acc \<le> i \<and> i - length acc \<in> set (starts segs)"
  using assms
proof (induction segs arbitrary: acc i)
  case Nil
  from Nil(3) have "i \<in> set (occurrences details_open acc)"
    by (simp add: occurrences_iff [OF open_ne] text_of_def)
  with Nil(2) show ?case by (simp add: plain_of_def)
next
  case (Cons seg segs)
  show ?case
  proof (cases seg)
    case (Plain p)
    from Cons.prems(2) have f: "occurrences details_open ((acc @ p) @ plain_of segs) = []"
      by (simp add: Plain plain_of_def)
    from Cons.prems(3) have m: "lit_match details_open (drop i ((acc @ p) @ text_of segs))"
      by (simp add: Plain text_of_def)
    from Cons.prems(1) have ok: "list_all seg_ok segs" by simp
    from Cons.IH [OF ok f m] have "length acc + length p \<le> i" "i - (length acc + length p) \<in> set (starts segs)"
      by simp_all
    then have "length acc \<le> i" "i - length acc = length p + (i - (length acc + length p))" by simp_all
    with \<open>i - (length acc + length p) \<in> set (starts segs)\<close> show ?thesis
      unfolding Plain starts.simps set_map by (intro conjI) (assumption, simp only: image_iff, blast)
  next
    case (Wrapped type_name w)
    let ?B = "wrapper_text w"
    let ?s = "acc @ ?B @ text_of segs"
    from Cons.prems(1) have w: "is_wrapper type_name w" and ok: "list_all seg_ok segs"
      by (simp_all add: Wrapped)
    note sh = wrapper_shape [OF w]
    from sh(1) have ne: "?B \<noteq> []" by auto
    from w have oB: "occurrences details_open ?B = [0]" by (simp add: is_wrapper_def)
    from Cons.prems(2) have f: "occurrences details_open (acc @ plain_of segs) = []"
      by (simp add: Wrapped plain_of_def)
    from Cons.prems(3) have m: "lit_match details_open (drop i ?s)"
      by (simp add: Wrapped text_of_def)
    from lit_match_length [OF m] have il: "i + 8 \<le> length ?s"
      using details_open_length by (cases "i \<le> length ?s") auto
    consider (before) "i < length acc" | (inside) "length acc \<le> i" "i < length acc + length ?B"
      | (after) "length acc + length ?B \<le> i" by linarith
    then show ?thesis
    proof cases
      case before
      show ?thesis
      proof (cases "i + 8 \<le> length acc")
        case True
        then have "length details_open \<le> length (drop i acc)" by (simp add: details_open_length)
        moreover from True have "drop i ?s = drop i acc @ ?B @ text_of segs" by simp
        ultimately have "lit_match details_open (drop i acc)" using m by (simp only: lit_match_append_left)
        then have "lit_match details_open (drop i (acc @ plain_of segs))"
          using True by (simp add: lit_match_appendI)
        then have "i \<in> set (occurrences details_open (acc @ plain_of segs))"
          by (simp only: occurrences_iff [OF open_ne])
        with f show ?thesis by simp
      next
        case False
        let ?j = "length acc - i"
        from before False have j: "0 < ?j" "?j < 8" by simp_all
        then have "?j < length details_open" by (simp add: details_open_length)
        from match_char [OF m this] have "ignorecase_eq (details_open ! ?j) (?s ! (i + ?j))" .
        moreover have "?s ! (i + ?j) = ?B ! 0" using before ne by (simp add: nth_append)
        ultimately have "ignorecase_eq (details_open ! ?j) 60" using sh(2) by simp
        with open_not_lt [OF j] show ?thesis by simp
      qed
    next
      case inside
      let ?o = "i - length acc"
      show ?thesis
      proof (cases "?o = 0")
        case True
        with inside show ?thesis by (simp add: Wrapped)
      next
        case False
        show ?thesis
        proof (cases "?o + 8 \<le> length ?B")
          case True
          have "drop i ?s = drop ?o ?B @ text_of segs" using inside True by simp
          moreover have "length details_open \<le> length (drop ?o ?B)" using True by (simp add: details_open_length)
          ultimately have "lit_match details_open (drop ?o ?B)" using m by (simp only: lit_match_append_left)
          then have "?o \<in> set (occurrences details_open ?B)" by (simp only: occurrences_iff [OF open_ne])
          with oB False show ?thesis by simp
        next
          case F: False
          let ?j = "length ?B - 1 - ?o"
          from inside F have j: "?j < 8" by simp
          then have "?j < length details_open" by (simp add: details_open_length)
          from match_char [OF m this] have ic: "ignorecase_eq (details_open ! ?j) (?s ! (i + ?j))" .
          have e1: "i + ?j = length acc + (length ?B - 1)" using inside by simp
          have e2: "?s ! (length acc + (length ?B - 1)) = (?B @ text_of segs) ! (length ?B - 1)"
            by (simp only: nth_append_length_plus)
          have e3: "length ?B - 1 < length ?B" using ne by simp
          have e4: "(?B @ text_of segs) ! (length ?B - 1) = ?B ! (length ?B - 1)"
            using e3 by (simp only: nth_append if_True)
          have "?s ! (i + ?j) = 62" by (simp only: e1 e2 e4 sh(3))
          with ic have "ignorecase_eq (details_open ! ?j) 62" by (simp only:)
          with open_not_gt [OF j] show ?thesis by simp
        qed
      qed
    next
      case after
      let ?i' = "i - length acc - length ?B"
      from after have "drop i ?s = drop ?i' ([] @ text_of segs)" by simp
      with m have m': "lit_match details_open (drop ?i' ([] @ text_of segs))" by simp
      from occurrences_suffix_Nil [OF open_ne f] have f': "occurrences details_open ([] @ plain_of segs) = []"
        by simp
      from Cons.IH [OF ok f' m'] have "?i' \<in> set (starts segs)" by simp
      moreover have "i - length acc = length ?B + ?i'" using after by simp
      ultimately have "i - length acc \<in> (+) (length ?B) ` set (starts segs)" by (simp only: image_iff) blast
      moreover from after have "length acc \<le> i" by simp
      ultimately show ?thesis by (simp add: Wrapped)
    qed
  qed
qed

lemma r_not_c: "ignorecase_eq 114 c \<Longrightarrow> ignorecase_eq 99 c \<Longrightarrow> False"
  by (auto simp: ignorecase_eq_def unicode_tolower_def split: if_splits)

lemma type_attr_6:
  "6 < length (type_attr type_name) \<and> (type_name \<noteq> [] \<longrightarrow> type_attr type_name ! 6 = hd type_name)"
  by (cases type_name) (simp_all add: type_attr_def ascii_def)

lemma types_hd:
  "hd (ascii ''reasoning'') = 114" "hd (ascii ''code_interpreter'') = 99"
  "ascii ''reasoning'' \<noteq> []" "ascii ''code_interpreter'' \<noteq> []"
  by (simp_all add: ascii_def)

lemma other_type_attr:
  assumes n: "type_name \<in> set types_to_remove" and ty: "ty \<in> set types_to_remove" and ne: "ty \<noteq> type_name"
    and t: "case_variant (type_attr type_name) x"
  shows "\<not> lit_match (type_attr ty) (x @ r)"
proof
  assume m: "lit_match (type_attr ty) (x @ r)"
  from t have lx: "length x = length (type_attr type_name)"
    by (simp add: case_variant_def list_all2_lengthD)
  with type_attr_6 [of type_name] have 6: "6 < length x" by simp
  from t 6 have a: "ignorecase_eq (type_attr type_name ! 6) (x ! 6)"
    by (simp add: case_variant_def list_all2_conv_all_nth)
  from type_attr_6 [of ty] have "6 < length (type_attr ty)" by simp
  from lit_match_nth [OF m this] 6 have b: "ignorecase_eq (type_attr ty ! 6) (x ! 6)"
    by (simp add: nth_append)
  from n ty ne consider "type_name = ascii ''reasoning''" "ty = ascii ''code_interpreter''"
    | "type_name = ascii ''code_interpreter''" "ty = ascii ''reasoning''"
    by (auto simp: types_to_remove_def)
  then show False
  proof cases
    case 1
    from a b show False
      using type_attr_6 [of type_name] type_attr_6 [of ty] r_not_c [of "x ! 6"]
      by (simp add: 1 types_hd)
  next
    case 2
    from a b show False
      using type_attr_6 [of type_name] type_attr_6 [of ty] r_not_c [of "x ! 6"]
      by (simp add: 2 types_hd)
  qed
qed

lemma wrapper_other_type:
  assumes w: "is_wrapper type_name w"
    and n: "type_name \<in> set types_to_remove" and ty: "ty \<in> set types_to_remove" and ne: "ty \<noteq> type_name"
  shows "details_match ty (wrapper_text w @ rest) = None"
proof -
  from w have o: "case_variant details_open (w_open w)" and g: "w_gap w \<noteq> []" "list_all isspace (w_gap w)"
    and t: "case_variant (type_attr type_name) (w_type w)"
    by (simp_all add: is_wrapper_def)
  have lo: "length (w_open w) = 8" using o details_open_length by (simp add: case_variant_def list_all2_lengthD)
  let ?r3 = "w_attrs w @ 62 # w_body w @ w_close w @ rest"
  let ?r2 = "w_type w @ ?r3"
  let ?r1 = "w_gap w @ ?r2"
  have s: "wrapper_text w @ rest = w_open w @ ?r1" by (simp add: wrapper_text_def)
  have d1: "drop 8 (w_open w @ ?r1) = ?r1" using lo by simp
  from type_attr_spaceless_head [OF t] have "?r2 = [] \<or> \<not> isspace (hd ?r2)" by (cases "w_type w") auto
  from takeWhile_run [OF g(2) this] have tw: "takeWhile isspace ?r1 = w_gap w" .
  have d2: "drop (length (w_gap w)) ?r1 = ?r2" by simp
  from other_type_attr [OF n ty ne t] have m2: "\<not> lit_match (type_attr ty) ?r2" .
  show ?thesis
    unfolding s details_match_unfold
    using m2 by (simp only: d1 tw d2 Let_def if_False) simp
qed

lemma sub_details_skip:
  "\<forall>i<length p. details_match ty (drop i (p @ r)) = None \<Longrightarrow>
   sub_details ty (p @ r) = p @ sub_details ty r"
proof (induction p)
  case Nil
  show ?case by simp
next
  case (Cons c p)
  from Cons.prems [rule_format, of 0] have 0: "details_match ty (c # p @ r) = None" by simp
  have "\<forall>i<length p. details_match ty (drop i (p @ r)) = None"
  proof (intro allI impI)
    fix i assume "i < length p"
    with Cons.prems [rule_format, of "Suc i"] show "details_match ty (drop i (p @ r)) = None" by simp
  qed
  from Cons.IH [OF this] 0 show ?case by simp
qed

lemma sub_details_match:
  assumes "details_match ty (p @ r) = Some (length p)" "p \<noteq> []"
  shows "sub_details ty (p @ r) = sub_details ty r"
proof -
  from assms(2) obtain c cs where p: "p = c # cs" by (cases p) auto
  from assms(1) have "details_match ty (c # cs @ r) = Some (Suc (length cs))" by (simp add: p)
  then show ?thesis by (simp add: p)
qed

text \<open>One pass of the loop deletes the wrappers of its type and nothing else.\<close>

lemma sub_details_pass:
  assumes "list_all seg_ok segs"
    and "\<forall>i. lit_match details_open (drop i (text_of segs)) \<longrightarrow> i \<in> set (starts segs)"
    and ty: "ty \<in> set types_to_remove"
  shows "sub_details ty (text_of segs) = text_of (without_type ty segs)"
  using assms(1,2)
proof (induction segs)
  case Nil
  show ?case by (simp add: text_of_def without_type_def)
next
  case (Cons seg segs)
  let ?r = "text_of segs"
  from Cons.prems(1) have ok: "list_all seg_ok segs" by simp
  show ?case
  proof (cases seg)
    case (Plain p)
    have t: "text_of (seg # segs) = p @ ?r" by (simp add: Plain text_of_def)
    have tail: "\<forall>i. lit_match details_open (drop i ?r) \<longrightarrow> i \<in> set (starts segs)"
    proof (intro allI impI)
      fix i assume "lit_match details_open (drop i ?r)"
      then have "lit_match details_open (drop (length p + i) (p @ ?r))" by simp
      with Cons.prems(2) t have "length p + i \<in> set (starts (seg # segs))" by simp
      then show "i \<in> set (starts segs)" by (auto simp: Plain)
    qed
    have "\<forall>i<length p. details_match ty (drop i (p @ ?r)) = None"
    proof (intro allI impI)
      fix i assume i: "i < length p"
      have "\<not> lit_match details_open (drop i (p @ ?r))"
      proof
        assume "lit_match details_open (drop i (p @ ?r))"
        with Cons.prems(2) t have "i \<in> set (starts (seg # segs))" by simp
        with i show False by (auto simp: Plain)
      qed
      then show "details_match ty (drop i (p @ ?r)) = None" by (rule details_match_no_open)
    qed
    from sub_details_skip [OF this] Cons.IH [OF ok tail] show ?thesis
      by (simp add: t) (simp add: Plain text_of_def without_type_def)
  next
    case (Wrapped type_name w)
    let ?B = "wrapper_text w"
    from Cons.prems(1) have w: "is_wrapper type_name w" and n: "type_name \<in> set types_to_remove"
      by (simp_all add: Wrapped)
    note sh = wrapper_shape [OF w]
    from sh(1) have ne: "?B \<noteq> []" by auto
    have t: "text_of (seg # segs) = ?B @ ?r" by (simp add: Wrapped text_of_def)
    have tail: "\<forall>i. lit_match details_open (drop i ?r) \<longrightarrow> i \<in> set (starts segs)"
    proof (intro allI impI)
      fix i assume "lit_match details_open (drop i ?r)"
      then have "lit_match details_open (drop (length ?B + i) (?B @ ?r))" by simp
      with Cons.prems(2) t have "length ?B + i \<in> set (starts (seg # segs))" by simp
      with ne show "i \<in> set (starts segs)" by (auto simp: Wrapped)
    qed
    note ih = Cons.IH [OF ok tail]
    show ?thesis
    proof (cases "type_name = ty")
      case True
      from wrapper_match [OF w] have "details_match ty (?B @ ?r) = Some (length ?B)" by (simp add: True)
      from sub_details_match [OF this ne] ih show ?thesis
        by (simp add: t) (simp add: Wrapped True text_of_def without_type_def)
    next
      case False
      then have ne': "ty \<noteq> type_name" by simp
      have "\<forall>i<length ?B. details_match ty (drop i (?B @ ?r)) = None"
      proof (intro allI impI)
        fix i assume i: "i < length ?B"
        show "details_match ty (drop i (?B @ ?r)) = None"
        proof (cases "i = 0")
          case True
          with wrapper_other_type [OF w n ty ne'] show ?thesis by simp
        next
          case F: False
          have "\<not> lit_match details_open (drop i (?B @ ?r))"
          proof
            assume "lit_match details_open (drop i (?B @ ?r))"
            with Cons.prems(2) t have "i \<in> set (starts (seg # segs))" by simp
            with i F show False by (auto simp: Wrapped)
          qed
          then show ?thesis by (rule details_match_no_open)
        qed
      qed
      from sub_details_skip [OF this] ih show ?thesis
        by (simp add: t) (simp add: Wrapped False text_of_def without_type_def)
    qed
  qed
qed

lemma without_type_ok: "list_all seg_ok segs \<Longrightarrow> list_all seg_ok (without_type ty segs)"
  by (simp add: without_type_def list_all_iff)

lemma without_type_plain: "plain_of (without_type ty segs) = plain_of segs"
proof (induction segs)
  case Nil
  show ?case by (simp add: without_type_def)
next
  case (Cons seg segs)
  then show ?case by (cases seg) (simp_all add: without_type_def plain_of_def)
qed

lemma well_formed_without: "well_formed segs \<Longrightarrow> well_formed (without_type ty segs)"
  by (simp add: well_formed_def without_type_ok without_type_plain)

lemma well_formed_starts:
  assumes "well_formed segs"
  shows "\<forall>i. lit_match details_open (drop i (text_of segs)) \<longrightarrow> i \<in> set (starts segs)"
proof (intro allI impI)
  fix i assume m: "lit_match details_open (drop i (text_of segs))"
  from assms have ok: "list_all seg_ok segs" and f: "occurrences details_open ([] @ plain_of segs) = []"
    by (simp_all add: well_formed_def)
  from m have "lit_match details_open (drop i ([] @ text_of segs))" by simp
  from open_only_at_starts [OF ok f this] show "i \<in> set (starts segs)" by simp
qed

lemma well_formed_pass:
  assumes "well_formed segs" "ty \<in> set types_to_remove"
  shows "sub_details ty (text_of segs) = text_of (without_type ty segs)"
proof -
  from assms(1) have "list_all seg_ok segs" by (simp add: well_formed_def)
  from sub_details_pass [OF this well_formed_starts [OF assms(1)] assms(2)] show ?thesis .
qed

lemma all_types_removed:
  "list_all seg_ok segs \<Longrightarrow>
   text_of (without_type (ascii ''code_interpreter'') (without_type (ascii ''reasoning'') segs)) = plain_of segs"
proof (induction segs)
  case Nil
  show ?case by (simp add: without_type_def text_of_def plain_of_def)
next
  case (Cons seg segs)
  then show ?case
    by (cases seg) (auto simp: without_type_def text_of_def plain_of_def types_to_remove_def)
qed

lemma remove_details_segments:
  assumes "well_formed segs"
  shows "remove_details types_to_remove (text_of segs) = plain_of segs"
proof -
  let ?a = "ascii ''reasoning''" and ?b = "ascii ''code_interpreter''"
  have a: "?a \<in> set types_to_remove" and b: "?b \<in> set types_to_remove"
    by (simp_all add: types_to_remove_def)
  from assms have ok: "list_all seg_ok segs" by (simp add: well_formed_def)
  have "remove_details types_to_remove (text_of segs) = sub_details ?b (sub_details ?a (text_of segs))"
    by (simp add: types_to_remove_def)
  also have "\<dots> = sub_details ?b (text_of (without_type ?a segs))"
    by (simp only: well_formed_pass [OF assms a])
  also have "\<dots> = text_of (without_type ?b (without_type ?a segs))"
    by (rule well_formed_pass [OF well_formed_without [OF assms] b])
  also have "\<dots> = plain_of segs" by (rule all_types_removed [OF ok])
  finally show ?thesis .
qed

section \<open>A single span\<close>

text \<open>
  C1, as the code has it. Let the text be prefix + start + content + end + suffix for a
  pair (start, end) of the table, where the content has a character that is not white
  space, the end literal matches (letter case ignored) in content + end only at its very
  end, and the only match (letter case ignored) of a start literal of the table anywhere
  in the text is this start. Then \<^verbatim>\<open>detect_reasoning_tags\<close> returns exactly one block:
  its content is the stripped content and its matched text is start + content + end; and
  the main content that \<^verbatim>\<open>process_content\<close> returns is prefix + suffix with blank
  lines collapsed and stripped. (The pairs \<^verbatim>\<open><thought>\<close> and \<^verbatim>\<open><Thought>\<close> cannot
  satisfy the hypothesis, since each start literal matches the other.)
\<close>

theorem single_span:
  assumes pair: "(st, en) \<in> set DEFAULT_REASONING_TAGS"
    and only: "\<forall>(st', en')\<in>set DEFAULT_REASONING_TAGS.
                 occurrences st' (p @ st @ c @ en @ q) = (if st' = st then [length p] else [])"
    and lazy: "occurrences en (c @ en) = [length c]"
    and nb: "strip c \<noteq> []"
  shows "fst (detect_reasoning_tags clk n (p @ st @ c @ en @ q)) =
           [\<lparr>type = ascii ''reasoning'', start_tag = st, end_tag = en, content = strip c,
             started_at = clk n, ended_at = clk (Suc n) + 1, duration = 1,
             original_match = st @ c @ en\<rparr>] \<and>
         main_content (fst (process_content clk n (p @ st @ c @ en @ q))) =
           strip (collapse_blank_lines (p @ q))"
proof -
  let ?s = "p @ st @ c @ en @ q"
  let ?m = "\<lparr>m_start = length p, g_start = length p + length st,
             g_end = length p + length st + length c,
             m_end = length p + length st + length c + length en\<rparr>"
  from pair tags_nonempty have st: "st \<noteq> []" and en: "en \<noteq> []" by auto
  from only pair have occ: "occurrences st ?s = [length p]" by fastforce
  then have "set (occurrences st ?s) = {length p}" by simp
  then have at: "lit_match st (drop (length p) ?s)"
    and uniq: "\<forall>i. lit_match st (drop i ?s) \<longrightarrow> i = length p"
    using occurrences_single_iff [OF st, of ?s "length p"] by blast+
  from lazy have "set (occurrences en (c @ en)) = {length c}" by simp
  then have l2: "\<forall>i. lit_match en (drop i (c @ en)) \<longrightarrow> i = length c"
    using occurrences_single_iff [OF en, of "c @ en" "length c"] by blast
  have "lazy_until en (c @ en @ q) = Some (length c)"
  proof (subst lazy_until_Some, intro conjI allI impI)
    show "length c \<le> length (c @ en @ q)" by simp
    show "lit_match en (drop (length c) (c @ en @ q))" by (simp add: lit_match_append_same)
    fix j assume j: "j < length c"
    show "\<not> lit_match en (drop j (c @ en @ q))"
    proof
      assume "lit_match en (drop j (c @ en @ q))"
      then have "lit_match en (drop j (c @ en) @ q)" using j by simp
      moreover have "length en \<le> length (drop j (c @ en))" using j by simp
      ultimately have "lit_match en (drop j (c @ en))" by (simp only: lit_match_append_left)
      with l2 j show False by blast
    qed
  qed
  then have lz: "lazy_until en (drop (length p + length st) ?s) = Some (length c)"
    using drop_append [of "length p + length st" "p @ st" "c @ en @ q"] by simp
  from finditer_from_unique [OF st at uniq lz, of 0]
  have one: "finditer st en ?s = [?m]" by (simp add: finditer_def)
  have others: "\<forall>(st', en')\<in>set DEFAULT_REASONING_TAGS. (st', en') \<noteq> (st, en) \<longrightarrow> finditer st' en' ?s = []"
  proof (intro ballI)
    fix x assume x: "x \<in> set DEFAULT_REASONING_TAGS"
    obtain st' en' where xe: "x = (st', en')" by (cases x)
    have "finditer st' en' ?s = []" if ne: "(st', en') \<noteq> (st, en)"
    proof -
      from x xe have p': "(st', en') \<in> set DEFAULT_REASONING_TAGS" by simp
      have "st' \<noteq> st"
      proof
        assume "st' = st"
        with p' pair tags_distinct have "en' = en" by (metis eq_key_imp_eq_value)
        with \<open>st' = st\<close> ne show False by simp
      qed
      with only p' have "occurrences st' ?s = []" by fastforce
      moreover from p' tags_nonempty have st': "st' \<noteq> []" by auto
      ultimately have "\<forall>i. \<not> lit_match st' (drop i ?s)"
        using occurrences_Nil_iff [of st' ?s] by blast
      from finditer_from_no_start [OF st' this] show ?thesis by (simp add: finditer_def)
    qed
    then show "case x of (st', en') \<Rightarrow> (st', en') \<noteq> (st, en) \<longrightarrow> finditer st' en' ?s = []"
      by (simp add: xe)
  qed
  have g1: "group1 ?s ?m = c" using slice_middle2 [of p st c en q] by (simp add: group1_def)
  have g0: "group0 ?s ?m = st @ c @ en"
    using slice_middle [of p "st @ c @ en" q] by (simp add: group0_def add.assoc)
  have dist: "distinct DEFAULT_REASONING_TAGS" using tags_distinct by (rule distinct_map [THEN iffD1, THEN conjunct1])
  have nb': "strip (group1 ?s ?m) \<noteq> []" unfolding g1 by (rule nb)
  from tag_loop_single [OF pair others dist one nb', of clk "[]" n]
  have det: "detect_reasoning_tags clk n ?s = ([new_block clk n st en ?s ?m], n + 2)"
    by (simp add: detect_reasoning_tags_def)
  have nbk: "new_block clk n st en ?s ?m =
      \<lparr>type = ascii ''reasoning'', start_tag = st, end_tag = en, content = strip c,
             started_at = clk n, ended_at = clk (Suc n) + 1, duration = 1,
             original_match = st @ c @ en\<rparr>"
    unfolding new_block_def g0 g1 by (rule refl)
  have old: "st @ c @ en \<noteq> []" using st by simp
  have "\<forall>i. prefix (st @ c @ en) (drop i (p @ (st @ c @ en) @ q)) \<longrightarrow> i = length p"
  proof (intro allI impI)
    fix i assume "prefix (st @ c @ en) (drop i (p @ (st @ c @ en) @ q))"
    then have "lit_match (st @ c @ en) (drop i ?s)" by (simp add: lit_match_prefix)
    then have "lit_match st (drop i ?s)" by (rule lit_match_append_lit)
    with uniq show "i = length p" by blast
  qed
  from replace_del_once [OF old this]
  have rd: "replace_del (st @ c @ en) ?s = p @ q" by simp
  show ?thesis
    by (simp add: det nbk process_content_def rd)
qed

theorem single_span_witness:
  "fst (detect_reasoning_tags sample_clock 0 (ascii ''a<think>x</think>b'')) =
     [\<lparr>type = ascii ''reasoning'', start_tag = ascii ''<think>'', end_tag = ascii ''</think>'',
       content = ascii ''x'', started_at = 0, ended_at = 2, duration = 1,
       original_match = ascii ''<think>x</think>''\<rparr>] \<and>
   main_content (fst (process_content sample_clock 0 (ascii ''a<think>x</think>b''))) = ascii ''ab''"
proof -
  have 1: "(ascii ''<think>'', ascii ''</think>'') \<in> set DEFAULT_REASONING_TAGS"
    by (simp add: DEFAULT_REASONING_TAGS_def)
  have 2: "\<forall>(st', en')\<in>set DEFAULT_REASONING_TAGS.
      occurrences st' (ascii ''a'' @ ascii ''<think>'' @ ascii ''x'' @ ascii ''</think>'' @ ascii ''b'') =
        (if st' = ascii ''<think>'' then [length (ascii ''a'')] else [])"
    by (simp add: occ_eval)
  have 3: "occurrences (ascii ''</think>'') (ascii ''x'' @ ascii ''</think>'') = [length (ascii ''x'')]"
    by (simp add: occ_eval)
  have 4: "strip (ascii ''x'') \<noteq> []"
    by (simp add: strip_def isspace_def ascii_def)
  from single_span [OF 1 2 3 4, of sample_clock 0] show ?thesis
    by (simp add: ascii_def strip_def isspace_def sample_clock_def)
qed

text \<open>
  C1 as stated fails: a content of white space only gives no block and leaves the markers
  in the main content, and a \<^verbatim>\<open><thought>\<close> span is reported twice, once for each of the
  pairs \<^verbatim>\<open><thought>\<close> and \<^verbatim>\<open><Thought>\<close>.
\<close>

theorem single_span_counterexample:
  "fst (detect_reasoning_tags sample_clock 0 (ascii ''<think> </think>'')) = [] \<and>
   main_content (fst (process_content sample_clock 0 (ascii ''<think> </think>''))) = ascii ''<think> </think>'' \<and>
   map start_tag (fst (detect_reasoning_tags sample_clock 0 (ascii ''<thought>x</thought>''))) =
     [ascii ''<thought>'', ascii ''<Thought>'']"
proof -
  have 1: "fst (detect_reasoning_tags sample_clock 0 (ascii ''<think> </think>'')) = []"
    by (simp add: scan_eval)
  have 2: "main_content (fst (process_content sample_clock 0 (ascii ''<think> </think>''))) = ascii ''<think> </think>''"
    using 1 by (simp add: process_content_def split_beta ascii_def strip_def isspace_def)
  have 3: "map start_tag (fst (detect_reasoning_tags sample_clock 0 (ascii ''<thought>x</thought>''))) =
     [ascii ''<thought>'', ascii ''<Thought>'']"
    by (simp add: scan_eval)
  from 1 2 3 show ?thesis by blast
qed

section \<open>Letter case\<close>

text \<open>
  C2, as the code has it: matching ignores letter case and is literal otherwise. Every
  block that \<^verbatim>\<open>detect_reasoning_tags\<close> returns covers, somewhere in the text, a start
  literal of the table, a content and the pair's end literal, each literal up to letter
  case, and carries the pair and the stripped content. Conversely an occurrence of a pair
  in any letter case is reported, when its content is not blank, the start literal matches
  nowhere before it and the end literal matches in content + end only at the very end.
\<close>

theorem case_insensitive_matching:
  "(\<forall>b\<in>set (fst (detect_reasoning_tags clk n s)).
      \<exists>(st, en)\<in>set DEFAULT_REASONING_TAGS. \<exists>p x c y q.
        s = p @ x @ c @ y @ q \<and> case_variant st x \<and> case_variant en y \<and>
        start_tag b = st \<and> end_tag b = en \<and> original_match b = x @ c @ y \<and>
        content b = strip c) \<and>
   ((st, en) \<in> set DEFAULT_REASONING_TAGS \<and> case_variant st x \<and> case_variant en y \<and>
    (\<forall>i\<in>set (occurrences st (p @ x @ c @ y @ q)). length p \<le> i) \<and>
    (\<forall>i\<in>set (occurrences en (c @ y)). length c \<le> i) \<and> strip c \<noteq> [] \<longrightarrow>
    (\<exists>b\<in>set (fst (detect_reasoning_tags clk n (p @ x @ c @ y @ q))).
       start_tag b = st \<and> end_tag b = en \<and> original_match b = x @ c @ y \<and>
       content b = strip c))"
proof (intro conjI ballI impI)
  fix b assume "b \<in> set (fst (detect_reasoning_tags clk n s))"
  then obtain st en m t where pair: "(st, en) \<in> set DEFAULT_REASONING_TAGS"
    and m: "m \<in> set (finditer st en s)" and b: "b = new_block clk t st en s m"
    using tag_loop_origin [of b clk s DEFAULT_REASONING_TAGS "([], n)"]
    by (auto simp: detect_reasoning_tags_def)
  from finditer_from_props [of m st en 0 s] m have "match_at st en 0 s m" by (simp add: finditer_def)
  from match_at_split [OF this] obtain p x c y q where
    "s = p @ x @ c @ y @ q" "case_variant st x" "case_variant en y"
    "group0 s m = x @ c @ y" "group1 s m = c" by blast
  then have "s = p @ x @ c @ y @ q \<and> case_variant st x \<and> case_variant en y \<and>
        start_tag b = st \<and> end_tag b = en \<and> original_match b = x @ c @ y \<and>
        content b = strip c"
    by (simp add: b new_block_def)
  then have "\<exists>p x c y q. s = p @ x @ c @ y @ q \<and> case_variant st x \<and> case_variant en y \<and>
        start_tag b = st \<and> end_tag b = en \<and> original_match b = x @ c @ y \<and>
        content b = strip c"
    by blast
  then have "case (st, en) of (st, en) \<Rightarrow> \<exists>p x c y q.
        s = p @ x @ c @ y @ q \<and> case_variant st x \<and> case_variant en y \<and>
        start_tag b = st \<and> end_tag b = en \<and> original_match b = x @ c @ y \<and>
        content b = strip c"
    by simp
  from this pair show "\<exists>(st, en)\<in>set DEFAULT_REASONING_TAGS. \<exists>p x c y q.
        s = p @ x @ c @ y @ q \<and> case_variant st x \<and> case_variant en y \<and>
        start_tag b = st \<and> end_tag b = en \<and> original_match b = x @ c @ y \<and>
        content b = strip c"
    by (rule bexI)
next
  let ?s = "p @ x @ c @ y @ q"
  let ?m = "\<lparr>m_start = length p, g_start = length p + length st,
          g_end = length p + length st + length c,
          m_end = length p + length st + length c + length en\<rparr>"
  assume h: "(st, en) \<in> set DEFAULT_REASONING_TAGS \<and> case_variant st x \<and> case_variant en y \<and>
    (\<forall>i\<in>set (occurrences st ?s). length p \<le> i) \<and>
    (\<forall>i\<in>set (occurrences en (c @ y)). length c \<le> i) \<and> strip c \<noteq> []"
  then have pair: "(st, en) \<in> set DEFAULT_REASONING_TAGS" and vx: "case_variant st x"
    and vy: "case_variant en y" and occ: "\<forall>i\<in>set (occurrences st ?s). length p \<le> i"
    and lz: "\<forall>i\<in>set (occurrences en (c @ y)). length c \<le> i" and nb: "strip c \<noteq> []" by blast+
  from pair tags_nonempty have st: "st \<noteq> []" and en: "en \<noteq> []" by auto
  have lx: "length x = length st" and ly: "length y = length en"
    using vx vy by (simp_all add: case_variant_def list_all2_lengthD)
  have before: "\<forall>i<length p. \<not> lit_match st (drop i ?s)"
  proof (intro allI impI notI)
    fix i assume i: "i < length p" and "lit_match st (drop i ?s)"
    then have "i \<in> set (occurrences st ?s)" by (simp add: occurrences_iff [OF st])
    with occ have "length p \<le> i" by blast
    with i show False by simp
  qed
  have at: "lit_match st (drop (length p) ?s)" using vx by (simp add: case_variant_match)
  have "lazy_until en (drop (length p + length st) ?s) = Some (length c)"
    using lazy_until_content [OF vy lz en, of q] lx drop_append [of "length p + length st" "p @ x" "c @ y @ q"]
    by simp
  from finditer_first [OF st before at this] have m: "?m \<in> set (finditer st en ?s)" .
  have g1: "group1 ?s ?m = c" using slice_middle2 [of p x c y q] lx by (simp add: group1_def)
  have g0: "group0 ?s ?m = x @ c @ y"
    using slice_middle [of p "x @ c @ y" q] lx ly by (simp add: group0_def add.assoc)
  have nb': "strip (group1 ?s ?m) \<noteq> []" unfolding g1 by (rule nb)
  from tag_loop_complete [OF pair m nb', of clk "([], n)"] obtain t where
    "new_block clk t st en ?s ?m \<in> set (fst (detect_reasoning_tags clk n ?s))"
    by (auto simp: detect_reasoning_tags_def)
  moreover have "start_tag (new_block clk t st en ?s ?m) = st" "end_tag (new_block clk t st en ?s ?m) = en"
    "original_match (new_block clk t st en ?s ?m) = x @ c @ y" "content (new_block clk t st en ?s ?m) = strip c"
    unfolding new_block_def g0 g1 by simp_all
  ultimately show "\<exists>b\<in>set (fst (detect_reasoning_tags clk n ?s)).
       start_tag b = st \<and> end_tag b = en \<and> original_match b = x @ c @ y \<and> content b = strip c"
    by blast
qed

theorem case_insensitive_matching_witness:
  "\<exists>b\<in>set (fst (detect_reasoning_tags sample_clock 0 (ascii ''<THINKING>x</THINKING>''))).
     start_tag b = ascii ''<thinking>'' \<and> end_tag b = ascii ''</thinking>'' \<and>
     original_match b = ascii ''<THINKING>x</THINKING>'' \<and> content b = ascii ''x''"
proof -
  have 1: "(ascii ''<thinking>'', ascii ''</thinking>'') \<in> set DEFAULT_REASONING_TAGS"
    by (simp add: DEFAULT_REASONING_TAGS_def)
  have 2: "case_variant (ascii ''<thinking>'') (ascii ''<THINKING>'')"
    by (simp add: case_variant_def ascii_def ignorecase_eq_def unicode_tolower_def)
  have 3: "case_variant (ascii ''</thinking>'') (ascii ''</THINKING>'')"
    by (simp add: case_variant_def ascii_def ignorecase_eq_def unicode_tolower_def)
  have 4: "\<forall>i\<in>set (occurrences (ascii ''<thinking>'')
              ([] @ ascii ''<THINKING>'' @ ascii ''x'' @ ascii ''</THINKING>'' @ [])). length ([] :: ustr) \<le> i"
    by simp
  have 5: "\<forall>i\<in>set (occurrences (ascii ''</thinking>'') (ascii ''x'' @ ascii ''</THINKING>'')).
             length (ascii ''x'') \<le> i"
    by (simp add: occ_eval)
  have 6: "strip (ascii ''x'') \<noteq> []"
    by (simp add: strip_def isspace_def ascii_def)
  from case_insensitive_matching [THEN conjunct2, rule_format, OF conjI [OF 1 conjI [OF 2 conjI [OF 3 conjI [OF 4 conjI [OF 5 6]]]]],
     of sample_clock 0]
  show ?thesis by (simp add: ascii_def strip_def isspace_def)
qed

text \<open>
  C2 as stated fails: the upper-case occurrence is reported as a span of the pair
  \<^verbatim>\<open><thinking>\<close>, \<^verbatim>\<open></thinking>\<close>.
\<close>

theorem case_sensitive_counterexample:
  "map start_tag (fst (detect_reasoning_tags sample_clock 0 (ascii ''<THINKING>x</THINKING>''))) =
     [ascii ''<thinking>'']"
  by (simp add: scan_eval)

section \<open>Blank spans\<close>

text \<open>
  C5, as the code has it: the matcher itself filters. Every block that
  \<^verbatim>\<open>detect_reasoning_tags\<close> returns comes from a match whose stripped group is not empty.
  For a start literal of the table followed immediately, or after white space only, by its
  end literal, \<^verbatim>\<open>detect_reasoning_tags\<close> returns no block at all, and the markers stay in
  the main content.
\<close>

theorem blank_span_not_reported:
  "(\<forall>b\<in>set (fst (detect_reasoning_tags clk n s)).
      \<exists>(st, en)\<in>set DEFAULT_REASONING_TAGS. \<exists>m\<in>set (finditer st en s).
        strip (group1 s m) \<noteq> [] \<and> content b = strip (group1 s m) \<and>
        original_match b = group0 s m) \<and>
   ((st, en) \<in> set DEFAULT_REASONING_TAGS \<and> list_all isspace w \<longrightarrow>
      fst (detect_reasoning_tags clk n (st @ w @ en)) = [] \<and>
      main_content (fst (process_content clk n (st @ w @ en))) =
        strip (collapse_blank_lines (st @ w @ en)))"
proof (intro conjI ballI impI)
  fix b assume "b \<in> set (fst (detect_reasoning_tags clk n s))"
  then obtain st en m t where pair: "(st, en) \<in> set DEFAULT_REASONING_TAGS"
    and m: "m \<in> set (finditer st en s)" and nb: "strip (group1 s m) \<noteq> []"
    and b: "b = new_block clk t st en s m"
    using tag_loop_origin [of b clk s DEFAULT_REASONING_TAGS "([], n)"]
    by (auto simp: detect_reasoning_tags_def)
  from nb b have "strip (group1 s m) \<noteq> [] \<and> content b = strip (group1 s m) \<and>
        original_match b = group0 s m" by (simp add: new_block_def)
  with m have "\<exists>m\<in>set (finditer st en s). strip (group1 s m) \<noteq> [] \<and>
      content b = strip (group1 s m) \<and> original_match b = group0 s m" by blast
  then have "case (st, en) of (st, en) \<Rightarrow> \<exists>m\<in>set (finditer st en s). strip (group1 s m) \<noteq> [] \<and>
      content b = strip (group1 s m) \<and> original_match b = group0 s m" by simp
  from this pair show "\<exists>(st, en)\<in>set DEFAULT_REASONING_TAGS. \<exists>m\<in>set (finditer st en s).
        strip (group1 s m) \<noteq> [] \<and> content b = strip (group1 s m) \<and>
        original_match b = group0 s m" by (rule bexI)
next
  assume h: "(st, en) \<in> set DEFAULT_REASONING_TAGS \<and> list_all isspace w"
  have "\<forall>(st', en')\<in>set DEFAULT_REASONING_TAGS.
          \<forall>m\<in>set (finditer st' en' (st @ w @ en)). strip (group1 (st @ w @ en) m) = []"
    using blank_pair_matches h by blast
  from tag_loop_all_blank [OF this]
  have d: "detect_reasoning_tags clk n (st @ w @ en) = ([], n)"
    by (simp add: detect_reasoning_tags_def)
  then show "fst (detect_reasoning_tags clk n (st @ w @ en)) = []" by simp
  from d show "main_content (fst (process_content clk n (st @ w @ en))) =
        strip (collapse_blank_lines (st @ w @ en))"
    by (simp add: process_content_def)
qed

theorem blank_span_not_reported_witness:
  "fst (detect_reasoning_tags sample_clock 0 (ascii ''<thinking>'' @ ascii ''   '' @ ascii ''</thinking>'')) = [] \<and>
   main_content (fst (process_content sample_clock 0 (ascii ''<thinking>'' @ ascii ''   '' @ ascii ''</thinking>''))) =
     ascii ''<thinking>   </thinking>''"
proof -
  have 1: "(ascii ''<thinking>'', ascii ''</thinking>'') \<in> set DEFAULT_REASONING_TAGS"
    by (simp add: DEFAULT_REASONING_TAGS_def)
  have 2: "list_all isspace (ascii ''   '')" by (simp add: ascii_def isspace_def)
  from blank_span_not_reported [THEN conjunct2, rule_format, OF conjI [OF 1 2], of sample_clock 0]
  show ?thesis by (simp add: ascii_def strip_def isspace_def)
qed

text \<open>C5 as stated fails on both of its examples: neither yields a span.\<close>

theorem empty_span_counterexample:
  "fst (detect_reasoning_tags sample_clock 0 (ascii ''<thinking></thinking>'')) = [] \<and>
   fst (detect_reasoning_tags sample_clock 0 (ascii ''<thinking>   </thinking>'')) = []"
proof -
  have 1: "fst (detect_reasoning_tags sample_clock 0 (ascii ''<thinking></thinking>'')) = []"
    by (simp add: scan_eval)
  have 2: "fst (detect_reasoning_tags sample_clock 0 (ascii ''<thinking>   </thinking>'')) = []"
    by (simp add: scan_eval)
  from 1 2 show ?thesis by (rule conjI)
qed

section \<open>The renderer and overlapping spans\<close>







section \<open>Unterminated markers\<close>




section \<open>Texts without markers\<close>



section \<open>The order of the blocks\<close>

text \<open>
  C3, as the code has it. Let the text hold one \<^verbatim>\<open><thinking>\<close> span and one
  \<^verbatim>\<open><reasoning>\<close> span, in either order, with contents that are not blank and hold no
  match of their end literal, and no other match of a start literal of the table; and let
  the text without the \<^verbatim>\<open><thinking>\<close> span still hold the \<^verbatim>\<open><reasoning>\<close> span as its
  only match of \<^verbatim>\<open><reasoning>\<close> (the spans do not overlap and deleting the first splices
  no second one together). Then \<^verbatim>\<open>detect_reasoning_tags\<close> returns exactly two blocks, the
  \<^verbatim>\<open><thinking>\<close> block first and the \<^verbatim>\<open><reasoning>\<close> block second, which is the order of
  the marker table, wherever the spans lie in the text; the rendered document lists them
  in this order; and the main content is the text without both spans, blank lines
  collapsed and stripped.
\<close>

theorem two_spans_table_order:
  assumes sT: "s = pT @ (ascii ''<thinking>'' @ c1 @ ascii ''</thinking>'') @ qT"
    and sR: "s = pR @ (ascii ''<reasoning>'' @ c2 @ ascii ''</reasoning>'') @ qR"
    and sU: "pT @ qT = u @ (ascii ''<reasoning>'' @ c2 @ ascii ''</reasoning>'') @ v"
    and occ: "\<forall>(st, en)\<in>set DEFAULT_REASONING_TAGS.
                occurrences st s =
                  (if st = ascii ''<thinking>'' then [length pT]
                   else if st = ascii ''<reasoning>'' then [length pR] else [])"
    and occU: "occurrences (ascii ''<reasoning>'') (pT @ qT) = [length u]"
    and lz1: "occurrences (ascii ''</thinking>'') (c1 @ ascii ''</thinking>'') = [length c1]"
    and lz2: "occurrences (ascii ''</reasoning>'') (c2 @ ascii ''</reasoning>'') = [length c2]"
    and nb1: "strip c1 \<noteq> []" and nb2: "strip c2 \<noteq> []"
  shows "fst (detect_reasoning_tags clk n s) =
           [span_block clk n (ascii ''<thinking>'') (ascii ''</thinking>'') c1,
            span_block clk (n + 2) (ascii ''<reasoning>'') (ascii ''</reasoning>'') c2] \<and>
         main_content (fst (process_content clk n s)) = strip (collapse_blank_lines (u @ v)) \<and>
         generate_html_output (fst (process_content clk n s)) =
           join [NL, NL]
             ([html_block (span_block clk n (ascii ''<thinking>'') (ascii ''</thinking>'') c1),
               html_block (span_block clk (n + 2) (ascii ''<reasoning>'') (ascii ''</reasoning>'') c2)] @
              (if strip (collapse_blank_lines (u @ v)) \<noteq> []
               then [strip (collapse_blank_lines (u @ v))] else []))"
  by (rule two_spans [OF assms])

theorem two_spans_table_order_witness:
  "fst (detect_reasoning_tags sample_clock 0 reasoning_first) =
     [span_block sample_clock 0 (ascii ''<thinking>'') (ascii ''</thinking>'') (ascii ''b''),
      span_block sample_clock (0 + 2) (ascii ''<reasoning>'') (ascii ''</reasoning>'') (ascii ''a'')] \<and>
   main_content (fst (process_content sample_clock 0 reasoning_first)) = []"
proof -
  note t = two_spans_table_order [OF reasoning_first_spans reasoning_first_starts reasoning_first_rest,
      of sample_clock 0]
  note a = t [THEN conjunct1]
  note b = t [THEN conjunct2, THEN conjunct1, unfolded strip_collapse_Nil]
  show ?thesis by (intro conjI a b)
qed

text \<open>
  C3 as stated fails: in \<open>reasoning_first\<close> the \<^verbatim>\<open><reasoning>\<close> span starts at
  position 0 and the \<^verbatim>\<open><thinking>\<close> span at position 24, yet the \<^verbatim>\<open><thinking>\<close> block
  is the first block of the result and of the rendered document.
\<close>

theorem position_order_counterexample:
  "map m_start (finditer (ascii ''<reasoning>'') (ascii ''</reasoning>'') reasoning_first) = [0] \<and>
   map m_start (finditer (ascii ''<thinking>'') (ascii ''</thinking>'') reasoning_first) = [24] \<and>
   map start_tag (fst (detect_reasoning_tags sample_clock 0 reasoning_first)) =
     [ascii ''<thinking>'', ascii ''<reasoning>''] \<and>
   generate_html_output (fst (process_content sample_clock 0 reasoning_first)) =
     ascii ''<details type=\"reasoning\" done=\"true\" duration=\"1\">'' @ [NL] @
     ascii ''<summary>Thought for 1 second</summary>'' @ [NL] @ ascii ''> b'' @ [NL] @
     ascii ''</details>'' @ [NL, NL] @
     ascii ''<details type=\"reasoning\" done=\"true\" duration=\"1\">'' @ [NL] @
     ascii ''<summary>Thought for 1 second</summary>'' @ [NL] @ ascii ''> a'' @ [NL] @
     ascii ''</details>''"
proof -
  have pT: "(ascii ''<thinking>'', ascii ''</thinking>'') \<in> set DEFAULT_REASONING_TAGS"
    and pR: "(ascii ''<reasoning>'', ascii ''</reasoning>'') \<in> set DEFAULT_REASONING_TAGS"
    by (simp_all add: DEFAULT_REASONING_TAGS_def)
  have ne: "ascii ''<thinking>'' \<noteq> ascii ''<reasoning>''" by (simp add: ascii_def)
  from reasoning_first_starts pT have oT: "occurrences (ascii ''<thinking>'') reasoning_first =
    [length (ascii ''<reasoning>a</reasoning>'')]" by fastforce
  from reasoning_first_starts pR ne have oR: "occurrences (ascii ''<reasoning>'') reasoning_first =
    [length ([] :: ustr)]" by fastforce
  have 1: "map m_start (finditer (ascii ''<reasoning>'') (ascii ''</reasoning>'') reasoning_first) = [0]"
    using finditer_one [OF pR _ oR reasoning_first_rest(3), of "ascii ''<thinking>b</thinking>''"]
      reasoning_first_spans(2) by simp
  have 2: "map m_start (finditer (ascii ''<thinking>'') (ascii ''</thinking>'') reasoning_first) = [24]"
    using finditer_one [OF pT _ oT reasoning_first_rest(2), of "[]"] reasoning_first_spans(1)
    by (simp add: ascii_def)
  note t = two_spans [OF reasoning_first_spans reasoning_first_starts reasoning_first_rest,
      of sample_clock 0]
  have 3: "map start_tag (fst (detect_reasoning_tags sample_clock 0 reasoning_first)) =
     [ascii ''<thinking>'', ascii ''<reasoning>'']"
    by (simp add: t [THEN conjunct1] span_block_def)
  have 4: "generate_html_output (fst (process_content sample_clock 0 reasoning_first)) =
     ascii ''<details type=\"reasoning\" done=\"true\" duration=\"1\">'' @ [NL] @
     ascii ''<summary>Thought for 1 second</summary>'' @ [NL] @ ascii ''> b'' @ [NL] @
     ascii ''</details>'' @ [NL, NL] @
     ascii ''<details type=\"reasoning\" done=\"true\" duration=\"1\">'' @ [NL] @
     ascii ''<summary>Thought for 1 second</summary>'' @ [NL] @ ascii ''> a'' @ [NL] @
     ascii ''</details>''"
    unfolding t [THEN conjunct2, THEN conjunct2] strip_collapse_Nil html_block_thinking_b
      html_block_reasoning_a
    by simp
  from 1 2 3 4 show ?thesis by blast
qed

section \<open>Named-block removal\<close>

text \<open>
  C8. For every text made of wrapper blocks of the types \<^verbatim>\<open>reasoning\<close> and
  \<^verbatim>\<open>code_interpreter\<close> interleaved with plain text, the loop of
  \<^verbatim>\<open>test_remove_details_functionality\<close> over both types deletes each block from its
  opening wrapper through its closing wrapper and returns the plain text segments, unchanged
  and in their order. The literals of a block match in any letter case, and additional
  attributes may stand between the type declaration and the closing angle bracket.
\<close>

theorem named_block_removal:
  assumes "well_formed segs"
  shows "remove_details types_to_remove (text_of segs) = plain_of segs"
  by (rule remove_details_segments [OF assms])

theorem named_block_removal_witness:
  "text_of sample_segments =
     ascii ''a<details type=\"reasoning\" done=\"true\">x</details>b<DETAILS '' @ [10] @
     ascii ''Type=\"Code_Interpreter\">y</Details>c'' \<and>
   well_formed sample_segments \<and>
   remove_details types_to_remove (text_of sample_segments) = ascii ''abc''"
proof -
  have t: "text_of sample_segments =
     ascii ''a<details type=\"reasoning\" done=\"true\">x</details>b<DETAILS '' @ [10] @
     ascii ''Type=\"Code_Interpreter\">y</Details>c''"
    by (simp add: sample_segments_def text_of_def wrapper_text_def ascii_def)
  have wf: "well_formed sample_segments" by (simp add: seg_eval)
  have p: "plain_of sample_segments = ascii ''abc''"
    by (simp add: sample_segments_def plain_of_def ascii_def)
  from named_block_removal [OF wf]
  have "remove_details types_to_remove (text_of sample_segments) = ascii ''abc''"
    by (simp only: p)
  with t wf show ?thesis by (intro conjI)
qed

end
